theory Spec2Isabelle
  imports Main
begin

section \<open>Data model\<close>

text \<open>
  The module \<^verbatim>\<open>deeppath.py\<close> traverses nested Python data: dictionaries, lists and
  scalars. Exceptions are values of \<open>pyerror\<close>; a function that may raise returns
  \<open>pyerror + 'a\<close> with \<open>Inl\<close> for the exception.

  Strings are lists of 8-bit characters, read as ASCII text: the regular-expression classes
  \<^verbatim>\<open>\d\<close> and \<^verbatim>\<open>\w\<close> are the ASCII digits and the ASCII letters, digits and underscore.
  Numbers are Python's unbounded integers. A dictionary is an association list in insertion
  order; its keys are strings or integers (\<open>pykey\<close>), and a Python dictionary never holds the
  same key twice. A tree has no sharing: no container is reachable along two paths.

  The definitions keep the names of the source. A private name loses its leading
  underscore, and the parameter \<^verbatim>\<open>default\<close> is \<open>dflt\<close>.
\<close>

datatype pyerror = IndexError | KeyError | TypeError | ValueError | AttributeError | RecursionError

datatype pykey = KStr string | KInt int

datatype pyvalue =
    PNone
  | PBool bool
  | PInt int
  | PStr string
  | PList "pyvalue list"
  | PDict "(pykey \<times> pyvalue) list"

text \<open>\<^verbatim>\<open>isinstance(x, Sequence)\<close>: lists, and also strings, which Python registers as sequences.\<close>

fun isinstance_Sequence :: "pyvalue \<Rightarrow> bool" where
  "isinstance_Sequence (PList xs) = True"
| "isinstance_Sequence (PStr s) = True"
| "isinstance_Sequence v = False"

text \<open>\<^verbatim>\<open>isinstance(x, MutableSequence)\<close>: lists, not strings.\<close>

fun isinstance_MutableSequence :: "pyvalue \<Rightarrow> bool" where
  "isinstance_MutableSequence (PList xs) = True"
| "isinstance_MutableSequence v = False"

text \<open>
  The position that index \<open>i\<close> addresses in a sequence of length \<open>n\<close>: a negative index
  counts from the end, and an index out of range raises IndexError.
\<close>

definition py_position :: "nat \<Rightarrow> int \<Rightarrow> pyerror + nat" where
  "py_position n i =
     (let j = (if i < 0 then int n + i else i)
      in if 0 \<le> j \<and> j < int n then Inr (nat j) else Inl IndexError)"

text \<open>\<^verbatim>\<open>xs[i]\<close> and \<^verbatim>\<open>xs[i] = v\<close> on a list.\<close>

definition py_index :: "'a list \<Rightarrow> int \<Rightarrow> pyerror + 'a" where
  "py_index xs i = (case py_position (length xs) i of Inl e \<Rightarrow> Inl e | Inr pos \<Rightarrow> Inr (xs ! pos))"

definition py_setitem :: "'a list \<Rightarrow> int \<Rightarrow> 'a \<Rightarrow> pyerror + 'a list" where
  "py_setitem xs i v =
     (case py_position (length xs) i of Inl e \<Rightarrow> Inl e | Inr pos \<Rightarrow> Inr (xs[pos := v]))"

text \<open>\<^verbatim>\<open>d[k] = v\<close> on a dictionary: an existing key keeps its place, a new key goes last.\<close>

fun dict_set :: "(pykey \<times> pyvalue) list \<Rightarrow> pykey \<Rightarrow> pyvalue \<Rightarrow> (pykey \<times> pyvalue) list" where
  "dict_set [] k v = [(k, v)]"
| "dict_set ((k', v') # kvs) k v =
     (if k' = k then (k', v) # kvs else (k', v') # dict_set kvs k v)"

text \<open>The characters of a string, as Python yields them: strings of length one.\<close>

definition str_items :: "string \<Rightarrow> pyvalue list" where
  "str_items s = map (\<lambda>c. PStr [c]) s"

text \<open>\<^verbatim>\<open>data[key]\<close> for a key that is a string or an integer.\<close>

fun getitem :: "pyvalue \<Rightarrow> pykey \<Rightarrow> pyerror + pyvalue" where
  "getitem (PDict kvs) key = (case map_of kvs key of None \<Rightarrow> Inl KeyError | Some v \<Rightarrow> Inr v)"
| "getitem (PList xs) (KInt i) = py_index xs i"
| "getitem (PList xs) (KStr k) = Inl TypeError"
| "getitem (PStr s) (KInt i) = py_index (str_items s) i"
| "getitem (PStr s) (KStr k) = Inl TypeError"
| "getitem v key = Inl TypeError"

section \<open>Characters, integers and regular expressions\<close>

definition is_digit :: "char \<Rightarrow> bool" where
  "is_digit c = (let n = (of_char c :: nat) in 48 \<le> n \<and> n \<le> 57)"

definition is_word :: "char \<Rightarrow> bool" where
  "is_word c =
     (let n = (of_char c :: nat)
      in (48 \<le> n \<and> n \<le> 57) \<or> (65 \<le> n \<and> n \<le> 90) \<or> (97 \<le> n \<and> n \<le> 122) \<or> n = 95)"

text \<open>The value of a string of decimal digits.\<close>

definition digits_value :: "string \<Rightarrow> nat" where
  "digits_value ds = foldl (\<lambda>acc c. 10 * acc + (of_char c - 48)) 0 ds"

text \<open>
  \<^verbatim>\<open>int(s)\<close> for the strings the module converts, which hold digits and minus signs only:
  an optional minus sign and at least one digit, anything else raises ValueError.
\<close>

definition is_int_literal :: "string \<Rightarrow> bool" where
  "is_int_literal s =
     (case s of
        [] \<Rightarrow> False
      | c # r \<Rightarrow> if c = CHR ''-'' then r \<noteq> [] \<and> list_all is_digit r else list_all is_digit s)"

definition int_value :: "string \<Rightarrow> int" where
  "int_value s =
     (case s of
        [] \<Rightarrow> 0
      | c # r \<Rightarrow> if c = CHR ''-'' then - int (digits_value r) else int (digits_value s))"

definition python_int :: "string \<Rightarrow> pyerror + int" where
  "python_int s = (if is_int_literal s then Inr (int_value s) else Inl ValueError)"

text \<open>The decimal digits of a natural number, as the f-string \<^verbatim>\<open>f"[{index}]"\<close> prints them.\<close>

function show_nat :: "nat \<Rightarrow> string" where
  "show_nat n = (if n < 10 then [char_of (48 + n)] else show_nat (n div 10) @ [char_of (48 + n mod 10)])"
  by pat_completeness auto
termination
  by (relation "measure id") auto

declare show_nat.simps [simp del]

text \<open>\<^verbatim>\<open>s.split("/")\<close> and \<^verbatim>\<open>"/".join(xs)\<close>.\<close>

fun split_on :: "char \<Rightarrow> string \<Rightarrow> string list" where
  "split_on sep [] = [[]]"
| "split_on sep (c # cs) =
     (if c = sep then [] # split_on sep cs
      else (case split_on sep cs of [] \<Rightarrow> [[c]] | t # ts \<Rightarrow> (c # t) # ts))"

fun join_on :: "string \<Rightarrow> string list \<Rightarrow> string" where
  "join_on sep [] = []"
| "join_on sep [s] = s"
| "join_on sep (s # t # ts) = s @ sep @ join_on sep (t # ts)"

text \<open>
  The pattern \<^verbatim>\<open>-?\d+\<close> at the start of a string: the matched text and the rest. The
  repetition is greedy, and giving back a digit or the sign never helps what follows.
\<close>

definition match_signed_digits :: "string \<Rightarrow> (string \<times> string) option" where
  "match_signed_digits s =
     (let sign = (case s of [] \<Rightarrow> [] | c # r \<Rightarrow> if c = CHR ''-'' then [c] else []);
          r = drop (length sign) s;
          ds = takeWhile is_digit r
      in if ds = [] then None else Some (sign @ ds, dropWhile is_digit r))"

text \<open>The pattern \<^verbatim>\<open>\[(?:\*|-?\d+)\]\<close> at the start of a string.\<close>

definition match_bracket :: "string \<Rightarrow> (string \<times> string) option" where
  "match_bracket s =
     (case s of
        [] \<Rightarrow> None
      | c # r \<Rightarrow>
          if c \<noteq> CHR ''['' then None
          else if take 2 r = ''*]'' then Some (''[*]'', drop 2 r)
          else (case match_signed_digits r of
                  None \<Rightarrow> None
                | Some (num, r') \<Rightarrow>
                    (case r' of
                       [] \<Rightarrow> None
                     | c' # r'' \<Rightarrow> if c' = CHR '']'' then Some (''['' @ num @ '']'', r'') else None)))"

lemma match_signed_digits_length:
  "match_signed_digits s = Some (num, r) \<Longrightarrow> length r \<le> length s"
  by (auto simp: match_signed_digits_def Let_def length_dropWhile_le le_diff_conv
      split: if_splits list.splits intro: order_trans [OF length_dropWhile_le])

lemma match_bracket_length:
  "match_bracket s = Some (grp, r) \<Longrightarrow> length r < length s"
  by (auto simp: match_bracket_def split: list.splits if_splits option.splits
      dest!: match_signed_digits_length)

text \<open>
  \<^verbatim>\<open>re.sub(r"([^/])(\[(?:\*|-?\d+)\])", r"\g<1>/\g<2>", path)\<close>: scanning from the left, a
  character other than the slash followed by a bracketed index or \<^verbatim>\<open>[*]\<close> gets a slash
  between the two; the scan goes on after the match, so matches do not overlap.
\<close>

function sub_brackets :: "string \<Rightarrow> string" where
  "sub_brackets [] = []"
| "sub_brackets (c # rest) =
     (if c \<noteq> CHR ''/'' then
        (case match_bracket rest of
           None \<Rightarrow> c # sub_brackets rest
         | Some (grp, rest') \<Rightarrow> c # CHR ''/'' # grp @ sub_brackets rest')
      else c # sub_brackets rest)"
  by pat_completeness auto
termination
  by (relation "measure length") (auto dest: match_bracket_length)

section \<open>Path compiler\<close>

datatype command =
    ThroughListFlat
  | ThroughListIndexed int
  | ThroughDictFlat
  | ThroughDictKey string

text \<open>
  The commands are named tuples, and Python compares them as tuples: the two commands
  without a field are both the empty tuple.
\<close>

fun tuple_of :: "command \<Rightarrow> pykey list" where
  "tuple_of ThroughListFlat = []"
| "tuple_of (ThroughListIndexed i) = [KInt i]"
| "tuple_of ThroughDictFlat = []"
| "tuple_of (ThroughDictKey k) = [KStr k]"

text \<open>\<^verbatim>\<open>x in commands\<close>.\<close>

definition command_in :: "command \<Rightarrow> command list \<Rightarrow> bool" where
  "command_in x commands = list_ex (\<lambda>c. tuple_of c = tuple_of x) commands"

text \<open>
  \<^verbatim>\<open>re.match(r"\[(-?\d+)\]", str_token)\<close> matches at the start of the token and does not
  look at what follows the closing bracket. Its group is a sign and digits, on which
  \<^verbatim>\<open>int\<close> does not raise.
\<close>

definition make_command :: "string \<Rightarrow> command" where
  "make_command str_token =
     (if str_token = ''*'' then ThroughDictFlat
      else if str_token = ''[*]'' then ThroughListFlat
      else (case str_token of
              [] \<Rightarrow> ThroughDictKey str_token
            | c # r \<Rightarrow>
                if c \<noteq> CHR ''['' then ThroughDictKey str_token
                else (case match_signed_digits r of
                        None \<Rightarrow> ThroughDictKey str_token
                      | Some (num, r') \<Rightarrow>
                          (case r' of
                             [] \<Rightarrow> ThroughDictKey str_token
                           | c' # r'' \<Rightarrow>
                               if c' = CHR '']'' then ThroughListIndexed (int_value num)
                               else ThroughDictKey str_token))))"

text \<open>\<^verbatim>\<open>path[0]\<close> raises IndexError on the empty path.\<close>

definition read_path :: "string \<Rightarrow> pyerror + command list" where
  "read_path path =
     (case path of
        [] \<Rightarrow> Inl IndexError
      | c # rest \<Rightarrow>
          (let path' = (if c = CHR ''/'' then rest else path)
           in Inr (map make_command (split_on CHR ''/'' (sub_brackets path')))))"

section \<open>Fan-out reader\<close>

fun go_through_dict_key :: "string \<Rightarrow> pyvalue list \<Rightarrow> pyvalue list" where
  "go_through_dict_key key [] = []"
| "go_through_dict_key key (item # list_of_items) =
     (case item of
        PDict kvs \<Rightarrow>
          (case map_of kvs (KStr key) of
             Some v \<Rightarrow> v # go_through_dict_key key list_of_items
           | None \<Rightarrow> go_through_dict_key key list_of_items)
      | _ \<Rightarrow> go_through_dict_key key list_of_items)"

text \<open>
  The test is \<^verbatim>\<open>len(item) > index\<close> only; \<^verbatim>\<open>item[index]\<close> then raises IndexError when a
  negative index reaches before the start of the item, and the exception leaves the loop.
\<close>

fun go_through_list_index :: "int \<Rightarrow> pyvalue list \<Rightarrow> pyerror + pyvalue list" where
  "go_through_list_index index [] = Inr []"
| "go_through_list_index index (item # list_of_items) =
     (let elems = (case item of PList xs \<Rightarrow> Some xs | PStr s \<Rightarrow> Some (str_items s) | _ \<Rightarrow> None)
      in case elems of
           None \<Rightarrow> go_through_list_index index list_of_items
         | Some xs \<Rightarrow>
             if int (length xs) > index then
               (case py_index xs index of
                  Inl e \<Rightarrow> Inl e
                | Inr v \<Rightarrow>
                    (case go_through_list_index index list_of_items of
                       Inl e \<Rightarrow> Inl e
                     | Inr result \<Rightarrow> Inr (v # result)))
             else go_through_list_index index list_of_items)"

fun go_through_list_flat :: "pyvalue list \<Rightarrow> pyvalue list" where
  "go_through_list_flat [] = []"
| "go_through_list_flat (item # list_of_items) =
     (case item of
        PList xs \<Rightarrow> xs @ go_through_list_flat list_of_items
      | PStr s \<Rightarrow> str_items s @ go_through_list_flat list_of_items
      | _ \<Rightarrow> go_through_list_flat list_of_items)"

fun go_through_dict_flat :: "pyvalue list \<Rightarrow> pyvalue list" where
  "go_through_dict_flat [] = []"
| "go_through_dict_flat (item # list_of_items) =
     (case item of
        PDict kvs \<Rightarrow> map snd kvs @ go_through_dict_flat list_of_items
      | _ \<Rightarrow> go_through_dict_flat list_of_items)"

fun process_commands :: "command list \<Rightarrow> pyvalue list \<Rightarrow> pyerror + pyvalue list" where
  "process_commands [] data = Inr data"
| "process_commands (ThroughDictKey key # commands) data =
     process_commands commands (go_through_dict_key key data)"
| "process_commands (ThroughListIndexed index # commands) data =
     (case go_through_list_index index data of
        Inl e \<Rightarrow> Inl e
      | Inr data' \<Rightarrow> process_commands commands data')"
| "process_commands (ThroughListFlat # commands) data =
     process_commands commands (go_through_list_flat data)"
| "process_commands (ThroughDictFlat # commands) data =
     process_commands commands (go_through_dict_flat data)"

text \<open>The result is a bare value or a Python list of values.\<close>

definition dget :: "pyvalue \<Rightarrow> string \<Rightarrow> pyvalue \<Rightarrow> pyerror + pyvalue" where
  "dget data path dflt =
     (case read_path path of
        Inl e \<Rightarrow> Inl e
      | Inr commands \<Rightarrow>
          (case process_commands commands [data] of
             Inl e \<Rightarrow> Inl e
           | Inr result_list \<Rightarrow>
               if length result_list = 0 then Inr dflt
               else if \<not> command_in ThroughListFlat commands \<and> \<not> command_in ThroughDictFlat commands
                 then Inr (result_list ! 0)
               else Inr (PList result_list)))"

section \<open>Repetition references\<close>

text \<open>
  The pattern \<^verbatim>\<open>([\w\*]+)\[([\d-]+)\]\<close> at the start of a string: the two groups. Both
  repetitions are greedy, and the character after each is outside its class, so giving back
  characters never helps.
\<close>

definition match_repetition :: "string \<Rightarrow> (string \<times> string) option" where
  "match_repetition s =
     (let key = takeWhile (\<lambda>c. is_word c \<or> c = CHR ''*'') s;
          r = dropWhile (\<lambda>c. is_word c \<or> c = CHR ''*'') s
      in if key = [] then None
         else (case r of
                 [] \<Rightarrow> None
               | c # r1 \<Rightarrow>
                   if c \<noteq> CHR ''['' then None
                   else (let num = takeWhile (\<lambda>c. is_digit c \<or> c = CHR ''-'') r1;
                             r2 = dropWhile (\<lambda>c. is_digit c \<or> c = CHR ''-'') r1
                         in if num = [] then None
                            else (case r2 of
                                    [] \<Rightarrow> None
                                  | c' # r3 \<Rightarrow> if c' = CHR '']'' then Some (key, num) else None))))"

text \<open>\<^verbatim>\<open>_REPETITION_REGEX.search(key)\<close>: the match at the leftmost position that has one.\<close>

fun search_repetition :: "string \<Rightarrow> (string \<times> string) option" where
  "search_repetition [] = match_repetition []"
| "search_repetition (c # cs) =
     (case match_repetition (c # cs) of
        Some m \<Rightarrow> Some m
      | None \<Rightarrow> search_repetition cs)"

text \<open>
  \<^verbatim>\<open>_get_repetition_index\<close>: None when the pattern is found nowhere in the segment. The second
  group may hold minus signs anywhere, and \<^verbatim>\<open>int\<close> raises ValueError on it then.
\<close>

definition get_repetition_index :: "string \<Rightarrow> pyerror + (string \<times> int) option" where
  "get_repetition_index key =
     (case search_repetition key of
        None \<Rightarrow> Inr None
      | Some (key', repetition_number) \<Rightarrow>
          (case python_int repetition_number of
             Inl e \<Rightarrow> Inl e
           | Inr i \<Rightarrow> Inr (Some (key', i))))"

section \<open>Legacy reader\<close>

text \<open>
  \<^verbatim>\<open>_flatdget\<close>. With a string key, a list is mapped over. A string is a sequence of
  one-character strings, each again such a sequence: on a string that is not empty the
  recursion does not end, and Python raises RecursionError.
\<close>

fun flatdget :: "pyvalue \<Rightarrow> pykey \<Rightarrow> pyerror + pyvalue"
  and flatdget_each :: "pyvalue list \<Rightarrow> pykey \<Rightarrow> pyerror + pyvalue list" where
  "flatdget (PList xs) (KStr k) =
     (case flatdget_each xs (KStr k) of Inl e \<Rightarrow> Inl e | Inr ys \<Rightarrow> Inr (PList ys))"
| "flatdget (PStr s) (KStr k) = (if s = [] then Inr (PList []) else Inl RecursionError)"
| "flatdget data key = getitem data key"
| "flatdget_each [] key = Inr []"
| "flatdget_each (x # xs) key =
     (case flatdget x key of
        Inl e \<Rightarrow> Inl e
      | Inr y \<Rightarrow> (case flatdget_each xs key of Inl e \<Rightarrow> Inl e | Inr ys \<Rightarrow> Inr (y # ys)))"

text \<open>\<^verbatim>\<open>data.values()\<close>: only a dictionary has the method.\<close>

fun dict_values :: "pyvalue \<Rightarrow> pyerror + pyvalue list" where
  "dict_values (PDict kvs) = Inr (map snd kvs)"
| "dict_values v = Inl AttributeError"

text \<open>One round of the loop of \<^verbatim>\<open>dget2\<close>: the new \<^verbatim>\<open>data\<close>, or the exception raised.\<close>

definition dget2_step :: "pyvalue \<Rightarrow> string \<Rightarrow> pyerror + pyvalue" where
  "dget2_step data key =
     (case get_repetition_index key of
        Inl e \<Rightarrow> Inl e
      | Inr (Some (key', index)) \<Rightarrow>
          if key' \<noteq> ''*'' then
            (case flatdget data (KStr key') of
               Inl e \<Rightarrow> Inl e
             | Inr data' \<Rightarrow> flatdget data' (KInt index))
          else
            (case dict_values data of
               Inl e \<Rightarrow> Inl e
             | Inr vs \<Rightarrow>
                 (case flatdget_each vs (KInt index) of Inl e \<Rightarrow> Inl e | Inr ys \<Rightarrow> Inr (PList ys)))
      | Inr None \<Rightarrow>
          if key \<noteq> ''*'' then flatdget data (KStr key)
          else if \<not> isinstance_Sequence data then
            (case dict_values data of Inl e \<Rightarrow> Inl e | Inr vs \<Rightarrow> Inr (PList vs))
          else Inr data)"

fun dget2_loop :: "pyvalue \<Rightarrow> string list \<Rightarrow> pyerror + pyvalue" where
  "dget2_loop data [] = Inr data"
| "dget2_loop data (key # keys) =
     (case dget2_step data key of
        Inl e \<Rightarrow> Inl e
      | Inr data' \<Rightarrow> dget2_loop data' keys)"

text \<open>\<^verbatim>\<open>path[1:]\<close> when the path starts with a slash.\<close>

definition strip_slash :: "string \<Rightarrow> string" where
  "strip_slash path = (case path of [] \<Rightarrow> [] | c # rest \<Rightarrow> if c = CHR ''/'' then rest else path)"

text \<open>The \<^verbatim>\<open>except\<close> clause catches three classes of exception; any other leaves \<^verbatim>\<open>dget2\<close>.\<close>

definition dget2 :: "pyvalue \<Rightarrow> string \<Rightarrow> pyvalue \<Rightarrow> pyerror + pyvalue" where
  "dget2 data path dflt =
     (case dget2_loop data (split_on CHR ''/'' (strip_slash path)) of
        Inl e \<Rightarrow> if e = KeyError \<or> e = TypeError \<or> e = IndexError then Inr dflt else Inl e
      | Inr data' \<Rightarrow> Inr data')"

section \<open>Writer\<close>

text \<open>
  \<^verbatim>\<open>dset\<close> changes the tree in place and returns nothing; the model returns the tree after
  the call, or the exception raised. The reference \<^verbatim>\<open>data\<close> walks down the tree, so a change
  made below it is a change of the child it came from: the recursion writes the changed child
  back at the place it was read from. A character read from a string is a new object, and
  the string it came from never changes. When a call raises, the model gives the exception
  only, not the tree, which the call may have changed in part before it raised.

  On \<^verbatim>\<open>data\<close> that is not a dictionary every segment raises TypeError: \<^verbatim>\<open>key not in data\<close>
  raises it on a scalar, and on a list or a string the subscript with a string key does.
\<close>

text \<open>Lines 175 to 186: the last segment, on the \<^verbatim>\<open>data\<close> the loop has reached.\<close>

definition dset_last :: "pyvalue \<Rightarrow> string \<Rightarrow> pyvalue \<Rightarrow> pyerror + pyvalue" where
  "dset_last data seg v =
     (case get_repetition_index seg of
        Inl e \<Rightarrow> Inl e
      | Inr None \<Rightarrow>
          (case data of
             PDict kvs \<Rightarrow> Inr (PDict (dict_set kvs (KStr seg) v))
           | _ \<Rightarrow> Inl TypeError)
      | Inr (Some (key, index)) \<Rightarrow>
          (case data of
             PDict kvs \<Rightarrow>
               (case map_of kvs (KStr key) of
                  None \<Rightarrow> Inr (PDict (dict_set kvs (KStr key) (PList [v])))
                | Some x \<Rightarrow>
                    (case x of
                       PList xs \<Rightarrow>
                         if int (length xs) = index
                         then Inr (PDict (dict_set kvs (KStr key) (PList (xs @ [v]))))
                         else (case py_setitem xs index v of
                                 Inl e \<Rightarrow> Inl e
                               | Inr xs' \<Rightarrow> Inr (PDict (dict_set kvs (KStr key) (PList xs'))))
                     | PStr s \<Rightarrow> if int (length s) = index then Inl AttributeError else Inl TypeError
                     | PDict kvs2 \<Rightarrow>
                         if int (length kvs2) = index then Inl AttributeError
                         else Inr (PDict (dict_set kvs (KStr key)
                                    (PDict (dict_set kvs2 (KInt index) v))))
                     | _ \<Rightarrow> Inl TypeError))
           | _ \<Rightarrow> Inl TypeError))"

text \<open>
  Lines 162 to 173, one round of the loop: the \<^verbatim>\<open>data\<close> of the next round, and where it
  sits in the \<^verbatim>\<open>data\<close> of this round, as the function that puts a changed child back.
\<close>

definition dset_step :: "pyvalue \<Rightarrow> string \<Rightarrow> pyerror + (pyvalue \<times> (pyvalue \<Rightarrow> pyvalue))" where
  "dset_step data seg =
     (case get_repetition_index seg of
        Inl e \<Rightarrow> Inl e
      | Inr None \<Rightarrow>
          (case data of
             PDict kvs \<Rightarrow>
               Inr (case map_of kvs (KStr seg) of None \<Rightarrow> PDict [] | Some c \<Rightarrow> c,
                    \<lambda>child'. PDict (dict_set kvs (KStr seg) child'))
           | _ \<Rightarrow> Inl TypeError)
      | Inr (Some (key, index)) \<Rightarrow>
          (case data of
             PDict kvs \<Rightarrow>
               (case (case map_of kvs (KStr key) of None \<Rightarrow> PList [PDict []] | Some x \<Rightarrow> x) of
                  PList xs \<Rightarrow>
                    (let xs1 = (if map_of kvs (KStr key) \<noteq> None \<and> int (length xs) = index
                                then xs @ [PDict []] else xs)
                     in case py_position (length xs1) index of
                          Inl e \<Rightarrow> Inl e
                        | Inr pos \<Rightarrow>
                            Inr (xs1 ! pos,
                                 \<lambda>child'. PDict (dict_set kvs (KStr key) (PList (xs1[pos := child'])))))
                | PStr s \<Rightarrow>
                    if int (length s) = index then Inl AttributeError
                    else (case py_index (str_items s) index of
                            Inl e \<Rightarrow> Inl e
                          | Inr child \<Rightarrow> Inr (child, \<lambda>child'. data))
                | PDict kvs2 \<Rightarrow>
                    if int (length kvs2) = index then Inl AttributeError
                    else (case map_of kvs2 (KInt index) of
                            None \<Rightarrow> Inl KeyError
                          | Some child \<Rightarrow>
                              Inr (child,
                                   \<lambda>child'. PDict (dict_set kvs (KStr key)
                                              (PDict (dict_set kvs2 (KInt index) child')))))
                | _ \<Rightarrow> Inl TypeError)
           | _ \<Rightarrow> Inl TypeError))"

text \<open>The loop over the segments but the last, then the last segment.\<close>

fun dset_loop :: "pyvalue \<Rightarrow> string list \<Rightarrow> string \<Rightarrow> pyvalue \<Rightarrow> pyerror + pyvalue" where
  "dset_loop data [] last_seg v = dset_last data last_seg v"
| "dset_loop data (seg # segs) last_seg v =
     (case dset_step data seg of
        Inl e \<Rightarrow> Inl e
      | Inr (child, put_back) \<Rightarrow>
          (case dset_loop child segs last_seg v of
             Inl e \<Rightarrow> Inl e
           | Inr child' \<Rightarrow> Inr (put_back child')))"

text \<open>The \<^verbatim>\<open>data\<close> that the loop has reached when it ends: what the last segment is written to.\<close>

fun dset_descend :: "pyvalue \<Rightarrow> string list \<Rightarrow> pyerror + pyvalue" where
  "dset_descend data [] = Inr data"
| "dset_descend data (seg # segs) =
     (case dset_step data seg of
        Inl e \<Rightarrow> Inl e
      | Inr (child, put_back) \<Rightarrow> dset_descend child segs)"

definition dset :: "pyvalue \<Rightarrow> string \<Rightarrow> pyvalue \<Rightarrow> pyerror + pyvalue" where
  "dset data path v =
     (let segs = split_on CHR ''/'' (strip_slash path)
      in dset_loop data (butlast segs) (last segs) v)"

text \<open>
  The call creates a list for the last segment under index 1: the segment is a repetition
  reference \<^verbatim>\<open>key[1]\<close> and the dictionary it is written to has no such key.
\<close>

definition dset_creates_at_one :: "pyvalue \<Rightarrow> string \<Rightarrow> bool" where
  "dset_creates_at_one data path =
     (let segs = split_on CHR ''/'' (strip_slash path)
      in case dset_descend data (butlast segs) of
           Inr (PDict kvs) \<Rightarrow>
             (case get_repetition_index (last segs) of
                Inr (Some (key, index)) \<Rightarrow> index = 1 \<and> map_of kvs (KStr key) = None
              | _ \<Rightarrow> False)
         | _ \<Rightarrow> False)"

section \<open>Leaf walker\<close>

text \<open>
  The generator yields pairs until it ends or raises: the model returns the pairs yielded
  and the exception, if one was raised. The accumulated path is a list of dictionary keys.
\<close>

text \<open>\<^verbatim>\<open>"/".join(path)\<close> raises TypeError on an item that is not a string.\<close>

fun key_strings :: "pykey list \<Rightarrow> pyerror + string list" where
  "key_strings [] = Inr []"
| "key_strings (KStr s # ks) = (case key_strings ks of Inl e \<Rightarrow> Inl e | Inr ss \<Rightarrow> Inr (s # ss))"
| "key_strings (KInt i # ks) = Inl TypeError"

definition join_path :: "pykey list \<Rightarrow> pyerror + string" where
  "join_path path = (case key_strings path of Inl e \<Rightarrow> Inl e | Inr ss \<Rightarrow> Inr (join_on ''/'' ss))"

text \<open>
  Lines 196 and 197: \<^verbatim>\<open>subpath[-1]\<close> raises IndexError on the empty path, and adding a string
  to an integer key raises TypeError.
\<close>

definition annotate_last :: "pykey list \<Rightarrow> nat \<Rightarrow> pyerror + pykey list" where
  "annotate_last path index =
     (if path = [] then Inl IndexError
      else (case last path of
              KStr s \<Rightarrow> Inr (butlast path @ [KStr (s @ ''['' @ show_nat index @ '']'')])
            | KInt i \<Rightarrow> Inl TypeError))"

fun dwalk_with_path :: "pyvalue \<Rightarrow> pykey list \<Rightarrow> (string \<times> pyvalue) list \<times> pyerror option"
  and dwalk_items :: "(pykey \<times> pyvalue) list \<Rightarrow> pykey list \<Rightarrow> (string \<times> pyvalue) list \<times> pyerror option"
  and dwalk_elems :: "pyvalue list \<Rightarrow> nat \<Rightarrow> pykey list \<Rightarrow> (string \<times> pyvalue) list \<times> pyerror option"
  where
  "dwalk_with_path (PDict kvs) path = dwalk_items kvs path"
| "dwalk_with_path (PList xs) path = dwalk_elems xs 0 path"
| "dwalk_with_path PNone path =
     (case join_path path of Inl e \<Rightarrow> ([], Some e) | Inr s \<Rightarrow> ([(s, PNone)], None))"
| "dwalk_with_path (PBool b) path =
     (case join_path path of Inl e \<Rightarrow> ([], Some e) | Inr s \<Rightarrow> ([(s, PBool b)], None))"
| "dwalk_with_path (PInt i) path =
     (case join_path path of Inl e \<Rightarrow> ([], Some e) | Inr s \<Rightarrow> ([(s, PInt i)], None))"
| "dwalk_with_path (PStr t) path =
     (case join_path path of Inl e \<Rightarrow> ([], Some e) | Inr s \<Rightarrow> ([(s, PStr t)], None))"
| "dwalk_items [] path = ([], None)"
| "dwalk_items ((key, v) # kvs) path =
     (case dwalk_with_path v (path @ [key]) of
        (ys, Some e) \<Rightarrow> (ys, Some e)
      | (ys, None) \<Rightarrow> (case dwalk_items kvs path of (zs, r) \<Rightarrow> (ys @ zs, r)))"
| "dwalk_elems [] index path = ([], None)"
| "dwalk_elems (v # vs) index path =
     (case annotate_last path index of
        Inl e \<Rightarrow> ([], Some e)
      | Inr subpath \<Rightarrow>
          (case dwalk_with_path v subpath of
             (ys, Some e) \<Rightarrow> (ys, Some e)
           | (ys, None) \<Rightarrow> (case dwalk_elems vs (Suc index) path of (zs, r) \<Rightarrow> (ys @ zs, r))))"

definition dwalk :: "pyvalue \<Rightarrow> (string \<times> pyvalue) list \<times> pyerror option" where
  "dwalk data = dwalk_with_path data []"


section \<open>Paths built from segments\<close>

text \<open>
  The paths that the readers and the writer agree on are built from segments: a dictionary
  key, or a dictionary key followed by a bracketed index. These definitions write such a
  path down as a string and name the commands it stands for; they state the properties
  below and are no part of the module.
\<close>

definition show_int :: "int \<Rightarrow> string" where
  "show_int i = (if i < 0 then CHR ''-'' # show_nat (nat (- i)) else show_nat (nat i))"

type_synonym segment = "string \<times> int option"

fun render_segment :: "segment \<Rightarrow> string" where
  "render_segment (key, None) = key"
| "render_segment (key, Some i) = key @ ''['' @ show_int i @ '']''"

definition render_path :: "segment list \<Rightarrow> string" where
  "render_path segs = join_on ''/'' (map render_segment segs)"

fun segment_commands :: "segment \<Rightarrow> command list" where
  "segment_commands (key, None) = [ThroughDictKey key]"
| "segment_commands (key, Some i) = [ThroughDictKey key, ThroughListIndexed i]"

text \<open>The tokens that the path compiler cuts a segment into.\<close>

fun segment_tokens :: "segment \<Rightarrow> string list" where
  "segment_tokens (key, None) = [key]"
| "segment_tokens (key, Some i) = [key, ''['' @ show_int i @ '']'']"

text \<open>
  A key that the path syntax can name: not empty, free of the separator and of the opening
  bracket, and not the wildcard.
\<close>

definition plain_key :: "string \<Rightarrow> bool" where
  "plain_key k = (k \<noteq> [] \<and> CHR ''/'' \<notin> set k \<and> CHR ''['' \<notin> set k \<and> k \<noteq> ''*'')"

text \<open>A key that the repetition pattern \<^verbatim>\<open>[\w\*]+\<close> takes whole, and not the wildcard.\<close>

definition word_key :: "string \<Rightarrow> bool" where
  "word_key k = (k \<noteq> [] \<and> (\<forall>c \<in> set k. is_word c \<or> c = CHR ''*'') \<and> k \<noteq> ''*'')"

text \<open>
  A segment of the grammar shared by the three entry points: the key of a segment
  with an index is a word key, the key of a segment without one is a plain key.
\<close>

fun shared_segment :: "segment \<Rightarrow> bool" where
  "shared_segment (key, None) = plain_key key"
| "shared_segment (key, Some i) = word_key key"

text \<open>Scalars: the leaves of a tree.\<close>

fun is_scalar :: "pyvalue \<Rightarrow> bool" where
  "is_scalar (PList xs) = False"
| "is_scalar (PDict kvs) = False"
| "is_scalar v = True"

section \<open>Trees whose leaves the path syntax can name\<close>

text \<open>
  A tree is addressable when every dictionary key is a string and a plain key, no dictionary
  holds a key twice (as in every Python dictionary), no list is an element of a list, and
  every key under which a list sits satisfies \<open>P\<close>.
\<close>

fun addressable :: "(string \<Rightarrow> bool) \<Rightarrow> pyvalue \<Rightarrow> bool" where
  "addressable P (PDict kvs) =
     (distinct (map fst kvs)
      \<and> (\<forall>kv \<in> set kvs.
            (case fst kv of
               KStr s \<Rightarrow> plain_key s \<and> (isinstance_MutableSequence (snd kv) \<longrightarrow> P s)
             | KInt i \<Rightarrow> False)
            \<and> addressable P (snd kv)))"
| "addressable P (PList xs) =
     (\<forall>x \<in> set xs. \<not> isinstance_MutableSequence x \<and> addressable P x)"
| "addressable P v = True"

text \<open>The trees on which the walker and \<open>dget\<close> are compared.\<close>

definition walkable :: "pyvalue \<Rightarrow> bool" where
  "walkable t = addressable (\<lambda>k. True) t"

text \<open>
  The trees on which the walker, \<open>dset\<close> and \<open>dget\<close> are compared: a key under which a list
  sits is a word key, so that the repetition pattern of the writer takes it whole.
\<close>

definition writable :: "pyvalue \<Rightarrow> bool" where
  "writable t = addressable word_key t"

text \<open>
  The node that a list of segments names in a tree: a key leads from a dictionary to the
  value under it, an index from a list to its element at that position, counted from the
  end when the index is negative. A path resolves to a leaf of the tree when its segments
  name a scalar.
\<close>

fun locate :: "pyvalue \<Rightarrow> segment list \<Rightarrow> pyvalue option" where
  "locate v [] = Some v"
| "locate v ((key, oi) # segs) =
     (case v of
        PDict kvs \<Rightarrow>
          (case map_of kvs (KStr key) of
             None \<Rightarrow> None
           | Some c \<Rightarrow>
               (case oi of
                  None \<Rightarrow> locate c segs
                | Some i \<Rightarrow>
                    (case c of
                       PList xs \<Rightarrow>
                         (case py_position (length xs) i of
                            Inl e \<Rightarrow> None
                          | Inr pos \<Rightarrow> locate (xs ! pos) segs)
                     | _ \<Rightarrow> None)))
      | _ \<Rightarrow> None)"

text \<open>The segments of the paths that the walker yields on an addressable tree.\<close>

fun walked_segment :: "(string \<Rightarrow> bool) \<Rightarrow> segment \<Rightarrow> bool" where
  "walked_segment P (key, None) = plain_key key"
| "walked_segment P (key, Some i) = (plain_key key \<and> P key \<and> 0 \<le> i)"

text \<open>The accumulated path of the walker that stands for a list of segments.\<close>

definition walked_path :: "segment list \<Rightarrow> pykey list" where
  "walked_path segs = map (\<lambda>seg. KStr (render_segment seg)) segs"

text \<open>Every pair of a list of yielded pairs names a scalar of the tree by such segments.\<close>

definition yields_located :: "pyvalue \<Rightarrow> (string \<Rightarrow> bool) \<Rightarrow> (string \<times> pyvalue) list \<Rightarrow> bool" where
  "yields_located root P ys =
     (\<forall>y \<in> set ys. \<exists>segs. segs \<noteq> [] \<and> list_all (walked_segment P) segs
        \<and> fst y = render_path segs \<and> locate root segs = Some (snd y) \<and> is_scalar (snd y))"

section \<open>Properties of the fan-out reader\<close>

lemma command_in_flat:
  "command_in ThroughListFlat commands = (ThroughDictFlat \<in> set commands \<or> ThroughListFlat \<in> set commands)"
  "command_in ThroughDictFlat commands = (ThroughDictFlat \<in> set commands \<or> ThroughListFlat \<in> set commands)"
proof -
  have flat: "tuple_of c = [] \<longleftrightarrow> c = ThroughDictFlat \<or> c = ThroughListFlat" for c
    by (cases c) auto
  show "command_in ThroughListFlat commands = (ThroughDictFlat \<in> set commands \<or> ThroughListFlat \<in> set commands)"
    by (auto simp: command_in_def list_ex_iff flat)
  show "command_in ThroughDictFlat commands = (ThroughDictFlat \<in> set commands \<or> ThroughListFlat \<in> set commands)"
    by (auto simp: command_in_def list_ex_iff flat)
qed

lemma process_commands_append:
  "process_commands (cs @ ds) data =
     (case process_commands cs data of Inl e \<Rightarrow> Inl e | Inr data' \<Rightarrow> process_commands ds data')"
  by (induction cs data rule: process_commands.induct) (auto split: sum.splits)

lemma process_commands_empty_batch: "process_commands cs [] = Inr []"
proof (induction cs)
  case Nil
  then show ?case by simp
next
  case (Cons c cs)
  then show ?case by (cases c) simp_all
qed

text \<open>
  C1. When the final batch is not empty: a compiled path that holds a \<open>ThroughDictFlat\<close> or a
  \<open>ThroughListFlat\<close> command makes \<open>dget\<close> return the whole batch as a list, whatever its
  length; a compiled path that holds neither makes it return the first element of the batch.
\<close>

theorem dget_result_policy:
  assumes "read_path p = Inr commands"
    and "process_commands commands [t] = Inr batch"
    and "batch \<noteq> []"
  shows "dget t p d =
           (if ThroughDictFlat \<in> set commands \<or> ThroughListFlat \<in> set commands
            then Inr (PList batch) else Inr (hd batch))"
  using assms by (simp add: dget_def command_in_flat hd_conv_nth)

theorem dget_result_policy_witness:
  "read_path ''a/*'' = Inr [ThroughDictKey ''a'', ThroughDictFlat]
   \<and> process_commands [ThroughDictKey ''a'', ThroughDictFlat]
        [PDict [(KStr ''a'', PDict [(KStr ''x'', PInt 1)])]] = Inr [PInt 1]
   \<and> dget (PDict [(KStr ''a'', PDict [(KStr ''x'', PInt 1)])]) ''a/*'' PNone = Inr (PList [PInt 1])"
proof -
  have h1: "read_path ''a/*'' = Inr [ThroughDictKey ''a'', ThroughDictFlat]"
    by code_simp
  have h2: "process_commands [ThroughDictKey ''a'', ThroughDictFlat]
              [PDict [(KStr ''a'', PDict [(KStr ''x'', PInt 1)])]] = Inr [PInt 1]"
    by simp
  show ?thesis
    using h1 h2 dget_result_policy [OF h1 h2, of PNone] by simp
qed

text \<open>
  C2. On a negative index the test \<^verbatim>\<open>len(item) > index\<close> always passes, so a sequence too
  short for the index is not dropped: the subscript raises IndexError and \<open>dget\<close> raises it
  too. An index that the sequence has is resolved from the end.
\<close>

theorem dget_negative_index:
  "dget (PList [PInt 1, PInt 2, PInt 3]) ''[-1]'' PNone = Inr (PInt 3)
   \<and> dget (PList [PInt 1, PInt 2, PInt 3]) ''[-4]'' PNone = Inl IndexError"
  by code_simp

text \<open>
  C6. When the final batch is empty \<open>dget\<close> returns the default; the batch is empty as soon
  as one \<open>ThroughDictKey\<close> step finds its key in no item of the batch it works on, at
  whatever depth.
\<close>

theorem dget_default:
  assumes "read_path p = Inr commands"
  shows "(process_commands commands [t] = Inr [] \<longrightarrow> dget t p D = Inr D)
       \<and> (\<forall>pre key post batch.
            commands = pre @ ThroughDictKey key # post
            \<and> process_commands pre [t] = Inr batch
            \<and> go_through_dict_key key batch = []
            \<longrightarrow> dget t p D = Inr D)"
proof (intro conjI allI impI)
  assume "process_commands commands [t] = Inr []"
  with assms show "dget t p D = Inr D"
    by (simp add: dget_def)
next
  fix pre key post batch
  assume h: "commands = pre @ ThroughDictKey key # post
             \<and> process_commands pre [t] = Inr batch \<and> go_through_dict_key key batch = []"
  then have "process_commands commands [t] = Inr []"
    by (simp add: process_commands_append process_commands_empty_batch)
  with assms show "dget t p D = Inr D"
    by (simp add: dget_def)
qed

theorem dget_default_witness:
  "read_path ''a/b/c'' = Inr ([ThroughDictKey ''a''] @ ThroughDictKey ''b'' # [ThroughDictKey ''c''])
   \<and> process_commands [ThroughDictKey ''a''] [PDict [(KStr ''a'', PDict [(KStr ''x'', PInt 1)])]]
       = Inr [PDict [(KStr ''x'', PInt 1)]]
   \<and> go_through_dict_key ''b'' [PDict [(KStr ''x'', PInt 1)]] = []
   \<and> dget (PDict [(KStr ''a'', PDict [(KStr ''x'', PInt 1)])]) ''a/b/c'' (PStr ''D'') = Inr (PStr ''D'')"
proof -
  let ?t = "PDict [(KStr ''a'', PDict [(KStr ''x'', PInt 1)])]"
  have h1: "read_path ''a/b/c''
              = Inr ([ThroughDictKey ''a''] @ ThroughDictKey ''b'' # [ThroughDictKey ''c''])"
    by code_simp
  have h2: "process_commands [ThroughDictKey ''a''] [?t] = Inr [PDict [(KStr ''x'', PInt 1)]]"
    by simp
  have h3: "go_through_dict_key ''b'' [PDict [(KStr ''x'', PInt 1)]] = []"
    by simp
  from dget_default [OF h1, of ?t "PStr ''D''"] h2 h3
  have "dget ?t ''a/b/c'' (PStr ''D'') = Inr (PStr ''D'')"
    by blast
  with h1 h2 h3 show ?thesis by simp
qed

section \<open>Properties of the path compiler\<close>

text \<open>
  C7. The pattern for a list index is matched at the start of the token only, so a token
  that goes on after the closing bracket is compiled to \<open>ThroughListIndexed\<close> and what follows
  the bracket is lost; it is not taken as a dictionary key.
\<close>

theorem read_path_index_prefix:
  "read_path ''[0]x'' = Inr [ThroughListIndexed 0]
   \<and> read_path ''a/[0]x'' = Inr [ThroughDictKey ''a'', ThroughListIndexed 0]"
  by code_simp

section \<open>Properties of the legacy reader\<close>

lemma dget2_loop_append:
  "dget2_loop data (pre @ post) =
     (case dget2_loop data pre of Inl e \<Rightarrow> Inl e | Inr data' \<Rightarrow> dget2_loop data' post)"
  by (induction pre arbitrary: data) (auto split: sum.splits)

text \<open>
  C8. When a segment raises KeyError, TypeError or IndexError on the data that the segments
  before it have reached, the segments after it are not looked at and \<open>dget2\<close> returns the
  default.
\<close>

theorem dget2_fail_fast:
  assumes "split_on CHR ''/'' (strip_slash p) = pre @ key # post"
    and "dget2_loop t pre = Inr data"
    and "dget2_step data key = Inl e"
    and "e = KeyError \<or> e = TypeError \<or> e = IndexError"
  shows "dget2 t p D = Inr D"
  using assms by (auto simp: dget2_def dget2_loop_append)

theorem dget2_fail_fast_witness:
  "split_on CHR ''/'' (strip_slash ''/a/b/c'') = [''a''] @ ''b'' # [''c'']
   \<and> dget2_loop (PDict [(KStr ''a'', PDict [(KStr ''x'', PInt 1)])]) [''a'']
       = Inr (PDict [(KStr ''x'', PInt 1)])
   \<and> dget2_step (PDict [(KStr ''x'', PInt 1)]) ''b'' = Inl KeyError
   \<and> dget2 (PDict [(KStr ''a'', PDict [(KStr ''x'', PInt 1)])]) ''/a/b/c'' (PStr ''D'') = Inr (PStr ''D'')"
proof -
  let ?t = "PDict [(KStr ''a'', PDict [(KStr ''x'', PInt 1)])]"
  have h1: "split_on CHR ''/'' (strip_slash ''/a/b/c'') = [''a''] @ ''b'' # [''c'']"
    by code_simp
  have h2: "dget2_loop ?t [''a''] = Inr (PDict [(KStr ''x'', PInt 1)])"
    by code_simp
  have h3: "dget2_step (PDict [(KStr ''x'', PInt 1)]) ''b'' = Inl KeyError"
    by code_simp
  have h4: "KeyError = KeyError \<or> KeyError = TypeError \<or> KeyError = IndexError"
    by simp
  show ?thesis
    using h1 h2 h3 dget2_fail_fast [OF h1 h2 h3 h4, of "PStr ''D''"] by simp
qed

section \<open>Properties of the leaf walker\<close>

text \<open>
  C10, as the code has it. On a list at the root that is not empty the walker raises
  IndexError before it yields anything: the accumulated path is empty and has no last
  component to annotate.
\<close>

theorem dwalk_root_list:
  assumes "xs \<noteq> []"
  shows "dwalk (PList xs) = ([], Some IndexError)"
  using assms by (cases xs) (simp_all add: dwalk_def annotate_last_def)

theorem dwalk_root_list_witness:
  "[PInt 1, PInt 2] \<noteq> [] \<and> dwalk (PList [PInt 1, PInt 2]) = ([], Some IndexError)"
  using dwalk_root_list [of "[PInt 1, PInt 2]"] by simp

text \<open>The empty list at the root raises nothing: the loop over its elements does not run.\<close>

theorem dwalk_root_empty_list:
  "dwalk (PList []) = ([], None)"
  by (simp add: dwalk_def)

section \<open>Properties of the writer\<close>

lemma map_of_dict_set_same: "map_of (dict_set kvs k v) k = Some v"
  by (induction kvs) auto

lemma dict_set_twice: "dict_set (dict_set kvs k v) k w = dict_set kvs k w"
  by (induction kvs) auto

lemma length_dict_set_present:
  "map_of kvs k = Some x \<Longrightarrow> length (dict_set kvs k v) = length kvs"
  by (induction kvs) (auto split: if_splits)

lemma py_position_bound: "py_position n i = Inr pos \<Longrightarrow> pos < n"
  by (auto simp: py_position_def Let_def split: if_splits)

lemma py_position_length: "py_position n (int n) = Inl IndexError"
  by (simp add: py_position_def)

lemma py_position_append: "py_position (Suc n) (int n) = Inr n"
  by (simp add: py_position_def)

lemma py_position_one: "py_position (Suc 0) i = Inr pos \<Longrightarrow> pos = 0"
  by (auto dest: py_position_bound)

text \<open>The last segment, written twice.\<close>

lemma dset_last_twice:
  assumes "dset_last data seg v = Inr d1"
    and "dset_last d1 seg v = Inr d2"
    and "\<not> (\<exists>kvs key. data = PDict kvs \<and> get_repetition_index seg = Inr (Some (key, 1))
              \<and> map_of kvs (KStr key) = None)"
  shows "d2 = d1"
proof (cases "get_repetition_index seg")
  case (Inl e)
  with assms(1) show ?thesis by (simp add: dset_last_def)
next
  case (Inr rep)
  show ?thesis
  proof (cases rep)
    case None
    with Inr assms(1,2) show ?thesis
      by (auto simp: dset_last_def dict_set_twice split: pyvalue.splits)
  next
    case (Some ki)
    obtain key index where ki: "ki = (key, index)" by (cases ki)
    note rep = Inr [unfolded Some ki]
    from assms(1) rep obtain kvs where data: "data = PDict kvs"
      by (cases data) (auto simp: dset_last_def)
    show ?thesis
    proof (cases "map_of kvs (KStr key)")
      case None
      with assms(3) data rep have idx: "index \<noteq> 1" by auto
      from None assms(1) rep data have d1: "d1 = PDict (dict_set kvs (KStr key) (PList [v]))"
        by (simp add: dset_last_def)
      from assms(2) rep idx show ?thesis
        unfolding d1
        by (auto simp: dset_last_def map_of_dict_set_same dict_set_twice py_setitem_def
            split: sum.splits if_splits dest!: py_position_one)
    next
      case (Some x)
      show ?thesis
      proof (cases x)
        case (PList xs)
        show ?thesis
        proof (cases "int (length xs) = index")
          case True
          with PList Some assms(1) rep data
          have d1: "d1 = PDict (dict_set kvs (KStr key) (PList (xs @ [v])))"
            by (simp add: dset_last_def)
          from assms(2) rep True show ?thesis
            unfolding d1
            by (auto simp: dset_last_def map_of_dict_set_same dict_set_twice py_setitem_def
                py_position_append split: sum.splits if_splits)
        next
          case False
          with PList Some assms(1) rep data obtain pos
            where pos: "py_position (length xs) index = Inr pos"
              and d1: "d1 = PDict (dict_set kvs (KStr key) (PList (xs[pos := v])))"
            by (auto simp: dset_last_def py_setitem_def split: sum.splits)
          from assms(2) rep False pos show ?thesis
            unfolding d1
            by (auto simp: dset_last_def map_of_dict_set_same dict_set_twice py_setitem_def
                split: sum.splits if_splits)
        qed
      next
        case (PDict kvs2)
        with Some assms(1) rep data
        have d1: "d1 = PDict (dict_set kvs (KStr key) (PDict (dict_set kvs2 (KInt index) v)))"
          by (auto simp: dset_last_def split: if_splits)
        from assms(2) rep show ?thesis
          unfolding d1
          by (auto simp: dset_last_def map_of_dict_set_same dict_set_twice split: if_splits)
      qed (use Some assms(1) rep data in \<open>auto simp: dset_last_def split: if_splits\<close>)
    qed
  qed
qed

text \<open>
  One round of the loop, run again on the tree in which the child it reached has been
  replaced: it reaches the replaced child at the same place, unless the child was a
  character of a string, which is never part of the tree.
\<close>

lemma dset_step_again:
  assumes "dset_step data seg = Inr (child, put_back)"
  shows "(\<exists>put_back'. dset_step (put_back c1) seg = Inr (c1, put_back')
            \<and> (\<forall>w. put_back' w = put_back w))
         \<or> (\<forall>w. put_back w = data)"
proof (cases "get_repetition_index seg")
  case (Inl e)
  with assms show ?thesis by (simp add: dset_step_def)
next
  case (Inr rep)
  from assms Inr obtain kvs where data: "data = PDict kvs"
    by (cases data; cases rep) (auto simp: dset_step_def)
  show ?thesis
  proof (cases rep)
    case None
    with Inr assms data show ?thesis
      by (auto simp: dset_step_def map_of_dict_set_same dict_set_twice)
  next
    case (Some ki)
    obtain key index where ki: "ki = (key, index)" by (cases ki)
    note rep = Inr [unfolded Some ki]
    let ?x = "case map_of kvs (KStr key) of None \<Rightarrow> PList [PDict []] | Some x \<Rightarrow> x"
    show ?thesis
    proof (cases ?x)
      case (PList xs)
      let ?xs1 = "if map_of kvs (KStr key) \<noteq> None \<and> int (length xs) = index
                  then xs @ [PDict []] else xs"
      from assms rep data PList obtain pos
        where pos: "py_position (length ?xs1) index = Inr pos"
          and child: "child = ?xs1 ! pos"
          and put: "put_back = (\<lambda>w. PDict (dict_set kvs (KStr key) (PList (?xs1[pos := w]))))"
        by (auto simp: dset_step_def Let_def split: sum.splits)
      have len: "int (length ?xs1) \<noteq> index"
        using pos py_position_length [of "length ?xs1"] by auto
      have lt: "pos < length ?xs1"
        using pos by (rule py_position_bound)
      have "dset_step (put_back c1) seg
              = Inr (c1, \<lambda>w. PDict (dict_set (dict_set kvs (KStr key) (PList (?xs1[pos := c1])))
                                      (KStr key) (PList ((?xs1[pos := c1])[pos := w]))))"
        using rep len lt pos
        unfolding put dset_step_def
        by (simp add: map_of_dict_set_same Let_def)
      then show ?thesis
        by (simp add: put dict_set_twice)
    next
      case (PStr s)
      with assms rep data show ?thesis
        by (auto simp: dset_step_def split: if_splits sum.splits)
    next
      case (PDict kvs2)
      with assms rep data have ne: "int (length kvs2) \<noteq> index"
        and look: "map_of kvs2 (KInt index) = Some child"
        and put: "put_back = (\<lambda>w. PDict (dict_set kvs (KStr key) (PDict (dict_set kvs2 (KInt index) w))))"
        by (auto simp: dset_step_def split: if_splits option.splits)
      have "dset_step (put_back c1) seg
              = Inr (c1, \<lambda>w. PDict (dict_set (dict_set kvs (KStr key) (PDict (dict_set kvs2 (KInt index) c1)))
                                      (KStr key) (PDict (dict_set (dict_set kvs2 (KInt index) c1) (KInt index) w))))"
        using rep ne look
        unfolding put dset_step_def
        by (simp add: map_of_dict_set_same length_dict_set_present)
      then show ?thesis
        by (simp add: put dict_set_twice)
    qed (use assms rep data in \<open>auto simp: dset_step_def\<close>)
  qed
qed

lemma dset_loop_twice:
  assumes "dset_loop data segs last_seg v = Inr d1"
    and "dset_loop d1 segs last_seg v = Inr d2"
    and "\<not> (\<exists>kvs key. dset_descend data segs = Inr (PDict kvs)
              \<and> get_repetition_index last_seg = Inr (Some (key, 1))
              \<and> map_of kvs (KStr key) = None)"
  shows "d2 = d1"
  using assms
proof (induction segs arbitrary: data d1 d2)
  case Nil
  then show ?case
    using dset_last_twice [of data last_seg v d1 d2] by auto
next
  case (Cons seg segs)
  from Cons.prems(1) obtain child put_back c1
    where step: "dset_step data seg = Inr (child, put_back)"
      and sub1: "dset_loop child segs last_seg v = Inr c1"
      and d1: "d1 = put_back c1"
    by (auto split: sum.splits prod.splits)
  have cond: "\<not> (\<exists>kvs key. dset_descend child segs = Inr (PDict kvs)
                  \<and> get_repetition_index last_seg = Inr (Some (key, 1))
                  \<and> map_of kvs (KStr key) = None)"
    using Cons.prems(3) step by simp
  from dset_step_again [OF step, of c1]
  show ?case
  proof
    assume "\<exists>put_back'. dset_step (put_back c1) seg = Inr (c1, put_back')
              \<and> (\<forall>w. put_back' w = put_back w)"
    then obtain put_back' where step2: "dset_step d1 seg = Inr (c1, put_back')"
      and same: "\<And>w. put_back' w = put_back w"
      using d1 by auto
    from Cons.prems(2) step2 obtain c2
      where sub2: "dset_loop c1 segs last_seg v = Inr c2" and d2: "d2 = put_back' c2"
      by (auto split: sum.splits)
    have "c2 = c1"
      using Cons.IH [OF sub1 sub2 cond] .
    with d1 d2 same show ?thesis by simp
  next
    assume fixed: "\<forall>w. put_back w = data"
    then have "d1 = data" using d1 by simp
    with Cons.prems(2) step fixed show ?thesis
      by (auto split: sum.splits)
  qed
qed

text \<open>
  C9, as the code has it. When \<open>dset\<close> succeeds twice in a row with the same arguments, the
  second call leaves the tree as the first call left it, unless the first call creates the
  list of a last segment \<^verbatim>\<open>key[1]\<close>: the list is created with one element whatever the
  index, and the second call then finds its length equal to the index and appends.
\<close>

theorem dset_twice:
  assumes "dset t p v = Inr t1"
    and "dset t1 p v = Inr t2"
    and "\<not> dset_creates_at_one t p"
  shows "t2 = t1"
proof -
  let ?segs = "split_on CHR ''/'' (strip_slash p)"
  have "\<not> (\<exists>kvs key. dset_descend t (butlast ?segs) = Inr (PDict kvs)
              \<and> get_repetition_index (last ?segs) = Inr (Some (key, 1))
              \<and> map_of kvs (KStr key) = None)"
    using assms(3) by (auto simp: dset_creates_at_one_def Let_def)
  with assms(1,2) show ?thesis
    unfolding dset_def Let_def by (rule dset_loop_twice)
qed

text \<open>A list of length one and the index 1: the first call appends, the second overwrites.\<close>

theorem dset_twice_witness:
  "dset (PDict [(KStr ''a'', PList [PInt 0])]) ''a[1]'' (PInt 5)
     = Inr (PDict [(KStr ''a'', PList [PInt 0, PInt 5])])
   \<and> dset (PDict [(KStr ''a'', PList [PInt 0, PInt 5])]) ''a[1]'' (PInt 5)
     = Inr (PDict [(KStr ''a'', PList [PInt 0, PInt 5])])
   \<and> \<not> dset_creates_at_one (PDict [(KStr ''a'', PList [PInt 0])]) ''a[1]''"
proof -
  have h1: "dset (PDict [(KStr ''a'', PList [PInt 0])]) ''a[1]'' (PInt 5)
              = Inr (PDict [(KStr ''a'', PList [PInt 0, PInt 5])])"
    by code_simp
  have h2: "dset (PDict [(KStr ''a'', PList [PInt 0, PInt 5])]) ''a[1]'' (PInt 5)
              = Inr (PDict [(KStr ''a'', PList [PInt 0, PInt 5])])"
    by code_simp
  have h3: "\<not> dset_creates_at_one (PDict [(KStr ''a'', PList [PInt 0])]) ''a[1]''"
    by code_simp
  from dset_twice [OF h1 h2 h3] h1 h2 h3 show ?thesis by simp
qed

text \<open>
  On the empty dictionary the first call to \<^verbatim>\<open>a[1]\<close> creates a list of one element and
  the second call appends a second one.
\<close>

theorem dset_twice_counterexample:
  "dset (PDict []) ''a[1]'' (PInt 7) = Inr (PDict [(KStr ''a'', PList [PInt 7])])
   \<and> dset (PDict [(KStr ''a'', PList [PInt 7])]) ''a[1]'' (PInt 7)
       = Inr (PDict [(KStr ''a'', PList [PInt 7, PInt 7])])"
  by code_simp

section \<open>Decimal numerals\<close>

lemma is_digit_char_of: "(d::nat) < 10 \<Longrightarrow> is_digit (char_of (48 + d))"
  by (simp add: is_digit_def)

lemma show_nat_digits: "list_all is_digit (show_nat n)"
proof (induction n rule: show_nat.induct)
  case (1 n)
  show ?case
  proof (cases "n < 10")
    case True
    then show ?thesis
      by (subst show_nat.simps) (simp add: is_digit_char_of)
  next
    case False
    with 1 show ?thesis
      by (subst show_nat.simps) (simp add: is_digit_char_of)
  qed
qed

lemma show_nat_nonempty: "show_nat n \<noteq> []"
  by (subst show_nat.simps) simp

lemma digits_value_snoc: "digits_value (ds @ [c]) = 10 * digits_value ds + (of_char c - 48)"
  by (simp add: digits_value_def)

lemma digits_value_show_nat: "digits_value (show_nat n) = n"
proof (induction n rule: show_nat.induct)
  case (1 n)
  show ?case
  proof (cases "n < 10")
    case True
    then show ?thesis
      by (subst show_nat.simps) (simp add: digits_value_def)
  next
    case False
    then have "digits_value (show_nat n) = 10 * (n div 10) + n mod 10"
      using 1 by (subst show_nat.simps) (simp add: digits_value_snoc)
    then show ?thesis by simp
  qed
qed

lemma is_digit_not_special:
  "is_digit c \<Longrightarrow> c \<noteq> CHR ''-'' \<and> c \<noteq> CHR '']'' \<and> c \<noteq> CHR ''*'' \<and> c \<noteq> CHR ''/'' \<and> c \<noteq> CHR ''[''"
  by (auto simp: is_digit_def)

lemma show_nat_hd: "\<exists>c r. show_nat n = c # r \<and> is_digit c"
  using show_nat_digits [of n] show_nat_nonempty [of n] by (cases "show_nat n") auto

lemma show_int_nat: "show_int (int n) = show_nat n"
  by (simp add: show_int_def)

lemma int_value_show_int: "int_value (show_int i) = i"
proof (cases "i < 0")
  case True
  then show ?thesis
    by (simp add: show_int_def int_value_def digits_value_show_nat)
next
  case False
  obtain c r where cr: "show_nat (nat i) = c # r" "is_digit c"
    using show_nat_hd by blast
  then have "c \<noteq> CHR ''-''" by (auto dest: is_digit_not_special)
  with False cr show ?thesis
    using digits_value_show_nat [of "nat i"]
    by (simp add: show_int_def int_value_def)
qed

lemma is_int_literal_show_int: "is_int_literal (show_int i)"
proof (cases "i < 0")
  case True
  then show ?thesis
    by (simp add: show_int_def is_int_literal_def show_nat_digits show_nat_nonempty)
next
  case False
  obtain c r where cr: "show_nat (nat i) = c # r" "is_digit c"
    using show_nat_hd by blast
  then have "c \<noteq> CHR ''-''" by (auto dest: is_digit_not_special)
  with False cr show ?thesis
    using show_nat_digits [of "nat i"]
    by (simp add: show_int_def is_int_literal_def)
qed

lemma python_int_show_int: "python_int (show_int i) = Inr i"
  by (simp add: python_int_def is_int_literal_show_int int_value_show_int)

lemma show_int_no_special:
  "CHR ''/'' \<notin> set (show_int i)" "CHR ''['' \<notin> set (show_int i)" "show_int i \<noteq> []"
  using show_nat_digits [of "nat i"] show_nat_digits [of "nat (- i)"]
  by (auto simp: show_int_def list_all_iff show_nat_nonempty dest: is_digit_not_special)

lemma takeWhile_append_stop:
  "\<forall>x \<in> set xs. P x \<Longrightarrow> \<not> P y \<Longrightarrow> takeWhile P (xs @ y # ys) = xs"
  by (induction xs) auto

lemma dropWhile_append_stop:
  "\<forall>x \<in> set xs. P x \<Longrightarrow> \<not> P y \<Longrightarrow> dropWhile P (xs @ y # ys) = y # ys"
  by (induction xs) auto

lemma match_signed_digits_show_int:
  assumes "\<not> is_digit c"
  shows "match_signed_digits (show_int i @ c # r) = Some (show_int i, c # r)"
proof (cases "i < 0")
  case True
  have all: "\<forall>x \<in> set (show_nat (nat (- i))). is_digit x"
    using show_nat_digits [of "nat (- i)"] by (simp add: list_all_iff)
  from True show ?thesis
    using takeWhile_append_stop [OF all assms] dropWhile_append_stop [OF all assms]
    by (simp add: match_signed_digits_def show_int_def show_nat_nonempty)
next
  case False
  obtain d ds where cr: "show_nat (nat i) = d # ds" "is_digit d"
    using show_nat_hd by blast
  then have nm: "d \<noteq> CHR ''-''" by (auto dest: is_digit_not_special)
  have all: "\<forall>x \<in> set (show_nat (nat i)). is_digit x"
    using show_nat_digits [of "nat i"] by (simp add: list_all_iff)
  from False nm cr show ?thesis
    using takeWhile_append_stop [OF all assms, of r] dropWhile_append_stop [OF all assms, of r]
    by (simp add: match_signed_digits_def show_int_def)
qed

lemma match_bracket_show_int:
  "match_bracket (''['' @ show_int i @ '']'' @ r) = Some (''['' @ show_int i @ '']'', r)"
proof -
  have nd: "\<not> is_digit CHR '']''" by (simp add: is_digit_def)
  have star: "take 2 (show_int i @ CHR '']'' # r) \<noteq> ''*]''"
  proof (cases "i < 0")
    case True
    then show ?thesis by (simp add: show_int_def)
  next
    case False
    obtain d ds where cr: "show_nat (nat i) = d # ds" "is_digit d"
      using show_nat_hd by blast
    with False show ?thesis
      by (auto simp: show_int_def dest: is_digit_not_special)
  qed
  show ?thesis
    using match_signed_digits_show_int [OF nd, of i r] star
    by (simp add: match_bracket_def)
qed

lemma match_bracket_not_bracket: "c \<noteq> CHR ''['' \<Longrightarrow> match_bracket (c # r) = None"
  by (simp add: match_bracket_def)

lemma match_bracket_Nil: "match_bracket [] = None"
  by (simp add: match_bracket_def)

section \<open>Compiling a path built from segments\<close>

lemma sub_brackets_key_match:
  assumes "k \<noteq> []" "CHR ''/'' \<notin> set k" "CHR ''['' \<notin> set k"
    and "match_bracket r = Some (g, r')"
  shows "sub_brackets (k @ r) = k @ CHR ''/'' # g @ sub_brackets r'"
  using assms
proof (induction k rule: list_nonempty_induct)
  case (single c)
  then show ?case by simp
next
  case (cons c k)
  then obtain d k' where k: "k = d # k'" "d \<noteq> CHR ''[''"
    by (cases k) auto
  with cons show ?case
    by (simp add: match_bracket_not_bracket)
qed

lemma sub_brackets_key_nomatch:
  assumes "k \<noteq> []" "CHR ''/'' \<notin> set k" "CHR ''['' \<notin> set k"
    and "match_bracket r = None"
  shows "sub_brackets (k @ r) = k @ sub_brackets r"
  using assms
proof (induction k rule: list_nonempty_induct)
  case (single c)
  then show ?case by simp
next
  case (cons c k)
  then obtain d k' where k: "k = d # k'" "d \<noteq> CHR ''[''"
    by (cases k) auto
  with cons show ?case
    by (simp add: match_bracket_not_bracket)
qed

lemma join_on_Cons: "ts \<noteq> [] \<Longrightarrow> join_on sep (t # ts) = t @ sep @ join_on sep ts"
  by (cases ts) simp_all

lemma sub_brackets_segment:
  assumes "plain_key (fst seg)"
    and "r = [] \<or> (\<exists>r'. r = CHR ''/'' # r')"
  shows "sub_brackets (render_segment seg @ r) = join_on ''/'' (segment_tokens seg) @ sub_brackets r"
proof -
  obtain k oi where seg: "seg = (k, oi)" by (cases seg)
  from assms(1) seg have k: "k \<noteq> []" "CHR ''/'' \<notin> set k" "CHR ''['' \<notin> set k"
    by (simp_all add: plain_key_def)
  from assms(2) have nm: "match_bracket r = None"
    by (auto simp: match_bracket_Nil match_bracket_not_bracket)
  show ?thesis
  proof (cases oi)
    case None
    with seg show ?thesis
      using sub_brackets_key_nomatch [OF k nm] by simp
  next
    case (Some i)
    have "sub_brackets (k @ ''['' @ show_int i @ '']'' @ r)
            = k @ CHR ''/'' # (''['' @ show_int i @ '']'') @ sub_brackets r"
      using k match_bracket_show_int by (rule sub_brackets_key_match)
    with seg Some show ?thesis by simp
  qed
qed

lemma segment_tokens_nonempty: "segment_tokens seg \<noteq> []"
  by (cases seg rule: segment_tokens.cases) simp_all

lemma join_on_append:
  "xs \<noteq> [] \<Longrightarrow> ys \<noteq> [] \<Longrightarrow> join_on sep (xs @ ys) = join_on sep xs @ sep @ join_on sep ys"
proof (induction xs rule: list_nonempty_induct)
  case (single x)
  then show ?case by (simp add: join_on_Cons)
next
  case (cons x xs)
  then show ?case by (simp add: join_on_Cons)
qed

lemma sub_brackets_render_path:
  assumes "list_all (\<lambda>seg. plain_key (fst seg)) segs"
  shows "sub_brackets (render_path segs) = join_on ''/'' (concat (map segment_tokens segs))"
  using assms
proof (induction segs)
  case Nil
  then show ?case by (simp add: render_path_def)
next
  case (Cons seg segs)
  show ?case
  proof (cases "segs = []")
    case True
    with Cons.prems show ?thesis
      using sub_brackets_segment [of seg "[]"] by (simp add: render_path_def)
  next
    case False
    then have ne: "concat (map segment_tokens segs) \<noteq> []"
      by (cases segs) (simp_all add: segment_tokens_nonempty)
    have "render_path (seg # segs) = render_segment seg @ CHR ''/'' # render_path segs"
      using False by (simp add: render_path_def join_on_Cons)
    moreover have "sub_brackets (render_segment seg @ CHR ''/'' # render_path segs)
        = join_on ''/'' (segment_tokens seg) @ CHR ''/'' # sub_brackets (render_path segs)"
      using Cons.prems sub_brackets_segment [of seg "CHR ''/'' # render_path segs"] by simp
    ultimately show ?thesis
      using Cons ne by (simp add: join_on_append segment_tokens_nonempty)
  qed
qed

lemma split_on_no_sep: "sep \<notin> set t \<Longrightarrow> split_on sep t = [t]"
  by (induction t) auto

lemma split_on_append: "sep \<notin> set t \<Longrightarrow> split_on sep (t @ sep # r) = t # split_on sep r"
  by (induction t) auto

lemma split_on_join_on:
  assumes "toks \<noteq> []" and "\<forall>t \<in> set toks. sep \<notin> set t"
  shows "split_on sep (join_on [sep] toks) = toks"
  using assms
proof (induction toks rule: list_nonempty_induct)
  case (single t)
  then show ?case by (simp add: split_on_no_sep)
next
  case (cons t toks)
  then show ?case by (simp add: join_on_Cons split_on_append)
qed

lemma segment_tokens_no_slash:
  "plain_key (fst seg) \<Longrightarrow> \<forall>t \<in> set (segment_tokens seg). CHR ''/'' \<notin> set t"
  by (cases seg rule: segment_tokens.cases) (auto simp: plain_key_def show_int_no_special)

lemma render_segment_no_slash:
  "plain_key (fst seg) \<Longrightarrow> CHR ''/'' \<notin> set (render_segment seg)"
  by (cases seg rule: segment_tokens.cases) (auto simp: plain_key_def show_int_no_special)

lemma make_command_plain_key: "plain_key k \<Longrightarrow> make_command k = ThroughDictKey k"
  by (cases k) (auto simp: make_command_def plain_key_def)

lemma make_command_index: "make_command (CHR ''['' # show_int i @ '']'') = ThroughListIndexed i"
proof -
  have nd: "\<not> is_digit CHR '']''" by (simp add: is_digit_def)
  have ne: "show_int i @ '']'' \<noteq> ''*]''"
  proof
    assume "show_int i @ '']'' = ''*]''"
    then have "show_int i = ''*''" by simp
    then show False
      using is_int_literal_show_int [of i] by (simp add: is_int_literal_def is_digit_def)
  qed
  show ?thesis
    using match_signed_digits_show_int [OF nd, of i "[]"] ne
    by (simp add: make_command_def int_value_show_int)
qed

lemma make_command_segment_tokens:
  "plain_key (fst seg) \<Longrightarrow> map make_command (segment_tokens seg) = segment_commands seg"
  by (cases seg rule: segment_tokens.cases) (simp_all add: make_command_plain_key make_command_index)

lemma render_path_hd:
  assumes "segs \<noteq> []" and "list_all (\<lambda>seg. plain_key (fst seg)) segs"
  shows "\<exists>c r. render_path segs = c # r \<and> c \<noteq> CHR ''/''"
proof -
  from assms obtain seg rest where segs: "segs = seg # rest" and pk: "plain_key (fst seg)"
    by (cases segs) auto
  obtain k oi where seg: "seg = (k, oi)" by (cases seg)
  with pk obtain c k' where k: "k = c # k'" "c \<noteq> CHR ''/''"
    by (cases k) (auto simp: plain_key_def)
  have "\<exists>r. render_segment seg = c # r"
    using seg k by (cases oi) simp_all
  then show ?thesis
    using segs k by (cases rest) (auto simp: render_path_def)
qed

lemma strip_slash_render_path:
  assumes "segs \<noteq> []" and "list_all (\<lambda>seg. plain_key (fst seg)) segs"
  shows "strip_slash (render_path segs) = render_path segs"
    and "strip_slash (CHR ''/'' # render_path segs) = render_path segs"
  using render_path_hd [OF assms] by (auto simp: strip_slash_def)

text \<open>The compiled form of a path built from segments, with or without a leading slash.\<close>

lemma read_path_render_path:
  assumes "segs \<noteq> []" and "list_all (\<lambda>seg. plain_key (fst seg)) segs"
    and "p = render_path segs \<or> p = CHR ''/'' # render_path segs"
  shows "read_path p = Inr (concat (map segment_commands segs))"
proof -
  obtain c r where hd: "render_path segs = c # r" "c \<noteq> CHR ''/''"
    using render_path_hd [OF assms(1,2)] by blast
  have toks: "concat (map segment_tokens segs) \<noteq> []"
    using assms(1) by (cases segs) (simp_all add: segment_tokens_nonempty)
  have ns: "\<forall>t \<in> set (concat (map segment_tokens segs)). CHR ''/'' \<notin> set t"
    using assms(2) segment_tokens_no_slash by (auto simp: list_all_iff)
  have "split_on CHR ''/'' (sub_brackets (render_path segs)) = concat (map segment_tokens segs)"
    using split_on_join_on [OF toks ns] sub_brackets_render_path [OF assms(2)] by simp
  moreover have "map make_command (concat (map segment_tokens segs))
                   = concat (map segment_commands segs)"
    using assms(2) by (induction segs) (simp_all add: make_command_segment_tokens)
  moreover have "read_path p
                   = Inr (map make_command (split_on CHR ''/'' (sub_brackets (render_path segs))))"
    using assms(3) hd by (auto simp: read_path_def)
  ultimately show ?thesis by simp
qed

text \<open>The segments that the writer and the legacy reader cut the same path into.\<close>

lemma split_render_path:
  assumes "segs \<noteq> []" and "list_all (\<lambda>seg. plain_key (fst seg)) segs"
    and "p = render_path segs \<or> p = CHR ''/'' # render_path segs"
  shows "split_on CHR ''/'' (strip_slash p) = map render_segment segs"
proof -
  have "strip_slash p = render_path segs"
    using assms(3) strip_slash_render_path [OF assms(1,2)] by auto
  moreover have "split_on CHR ''/'' (join_on ''/'' (map render_segment segs)) = map render_segment segs"
    using assms(1,2) render_segment_no_slash
    by (intro split_on_join_on) (auto simp: list_all_iff)
  ultimately show ?thesis by (simp add: render_path_def)
qed

lemma match_repetition_no_bracket: "CHR ''['' \<notin> set s \<Longrightarrow> match_repetition s = None"
proof -
  assume nb: "CHR ''['' \<notin> set s"
  have "\<And>c r. dropWhile (\<lambda>c. is_word c \<or> c = CHR ''*'') s = c # r \<Longrightarrow> c \<noteq> CHR ''[''"
  proof -
    fix c r assume "dropWhile (\<lambda>c. is_word c \<or> c = CHR ''*'') s = c # r"
    then have "c \<in> set s"
      by (metis list.set_intros(1) set_dropWhileD)
    with nb show "c \<noteq> CHR ''[''" by auto
  qed
  then show ?thesis
    by (auto simp: match_repetition_def Let_def split: list.splits)
qed

lemma search_repetition_no_bracket: "CHR ''['' \<notin> set s \<Longrightarrow> search_repetition s = None"
  by (induction s) (simp_all add: match_repetition_no_bracket)

lemma get_repetition_index_plain: "plain_key k \<Longrightarrow> get_repetition_index k = Inr None"
  by (simp add: get_repetition_index_def search_repetition_no_bracket plain_key_def)

lemma word_key_plain_key: "word_key k \<Longrightarrow> plain_key k"
  by (auto simp: word_key_def plain_key_def is_word_def)

lemma match_repetition_word_key:
  assumes "word_key k"
  shows "match_repetition (k @ ''['' @ show_int i @ '']'') = Some (k, show_int i)"
proof -
  let ?W = "\<lambda>c. is_word c \<or> c = CHR ''*''"
  let ?D = "\<lambda>c. is_digit c \<or> c = CHR ''-''"
  have kall: "\<forall>c \<in> set k. ?W c" and kne: "k \<noteq> []"
    using assms by (auto simp: word_key_def)
  have nb: "\<not> ?W CHR ''[''" by (simp add: is_word_def)
  have dall: "\<forall>c \<in> set (show_int i). ?D c"
    using show_nat_digits [of "nat i"] show_nat_digits [of "nat (- i)"]
    by (auto simp: show_int_def list_all_iff)
  have nc: "\<not> ?D CHR '']''" by (simp add: is_digit_def)
  have 1: "takeWhile ?W (k @ CHR ''['' # show_int i @ '']'') = k"
    using kall nb by (rule takeWhile_append_stop)
  have 2: "dropWhile ?W (k @ CHR ''['' # show_int i @ '']'') = CHR ''['' # show_int i @ '']''"
    using kall nb by (rule dropWhile_append_stop)
  have 3: "takeWhile ?D (show_int i @ CHR '']'' # []) = show_int i"
    using dall nc by (rule takeWhile_append_stop)
  have 4: "dropWhile ?D (show_int i @ CHR '']'' # []) = '']''"
    using dall nc by (rule dropWhile_append_stop)
  show ?thesis
    using 1 2 3 4 kne by (simp add: match_repetition_def show_int_no_special)
qed

lemma get_repetition_index_word:
  assumes "word_key k"
  shows "get_repetition_index (k @ CHR ''['' # show_int i @ '']'') = Inr (Some (k, i))"
proof -
  from assms obtain c k' where k: "k = c # k'" by (cases k) (auto simp: word_key_def)
  have "search_repetition (k @ ''['' @ show_int i @ '']'') = Some (k, show_int i)"
    using match_repetition_word_key [OF assms, of i] by (simp add: k)
  then show ?thesis
    by (simp add: get_repetition_index_def python_int_show_int)
qed

section \<open>The two readers on a path of shared segments\<close>

lemma shared_segment_plain: "shared_segment seg \<Longrightarrow> plain_key (fst seg)"
  by (cases seg rule: shared_segment.cases) (simp_all add: word_key_plain_key)

lemma shared_segments_plain:
  "list_all shared_segment segs \<Longrightarrow> list_all (\<lambda>seg. plain_key (fst seg)) segs"
  by (auto simp: list_all_iff shared_segment_plain)

lemma segment_commands_no_flat:
  "ThroughDictFlat \<notin> set (concat (map segment_commands segs))"
  "ThroughListFlat \<notin> set (concat (map segment_commands segs))"
proof -
  have "ThroughDictFlat \<notin> set (segment_commands seg) \<and> ThroughListFlat \<notin> set (segment_commands seg)"
    for seg by (cases seg rule: segment_commands.cases) simp_all
  then show "ThroughDictFlat \<notin> set (concat (map segment_commands segs))"
    and "ThroughListFlat \<notin> set (concat (map segment_commands segs))"
    by auto
qed

text \<open>
  One segment on a batch of one item: the batch becomes empty, or it holds the one value
  that a round of the loop of \<open>dget2\<close> reaches.
\<close>

lemma dget2_step_follows:
  assumes "shared_segment seg"
    and "process_commands (segment_commands seg) [x] = Inr batch"
  shows "batch = [] \<or> (\<exists>y. batch = [y] \<and> dget2_step x (render_segment seg) = Inr y)"
proof (cases seg rule: shared_segment.cases)
  case (1 key)
  with assms(1) have rep: "get_repetition_index key = Inr None" and ns: "key \<noteq> ''*''"
    by (simp_all add: get_repetition_index_plain plain_key_def)
  from assms(2) 1 show ?thesis
    by (cases x) (auto simp: dget2_step_def rep ns split: option.splits)
next
  case (2 key i)
  with assms(1) have rep: "get_repetition_index (key @ CHR ''['' # show_int i @ '']'') = Inr (Some (key, i))"
    and ns: "key \<noteq> ''*''"
    by (simp_all add: get_repetition_index_word word_key_def)
  show ?thesis
  proof (cases "go_through_dict_key key [x]")
    case Nil
    with assms(2) 2 show ?thesis by simp
  next
    case (Cons y ys)
    then obtain kvs where x: "x = PDict kvs" and look: "map_of kvs (KStr key) = Some y"
      and ys: "ys = []"
      by (cases x) (auto split: option.splits)
    from assms(2) 2 Cons ys have idx: "go_through_list_index i [y] = Inr batch"
      by (simp split: sum.splits)
    have first: "flatdget x (KStr key) = Inr y"
      using x look by simp
    from idx have "batch = [] \<or> (\<exists>z. batch = [z] \<and> flatdget y (KInt i) = Inr z)"
      by (cases y) (auto simp: Let_def split: if_splits sum.splits)
    then show ?thesis
      using 2 first by (auto simp: dget2_step_def rep ns)
  qed
qed

lemma dget2_loop_follows:
  assumes "list_all shared_segment segs"
    and "process_commands (concat (map segment_commands segs)) [x] = Inr (v # rest)"
  shows "dget2_loop x (map render_segment segs) = Inr v"
  using assms
proof (induction segs arbitrary: x)
  case Nil
  then show ?case by simp
next
  case (Cons seg segs)
  from Cons.prems(2) obtain batch
    where b: "process_commands (segment_commands seg) [x] = Inr batch"
      and r: "process_commands (concat (map segment_commands segs)) batch = Inr (v # rest)"
    by (auto simp: process_commands_append split: sum.splits)
  from Cons.prems(1) have ok: "shared_segment seg" and oks: "list_all shared_segment segs"
    by simp_all
  from dget2_step_follows [OF ok b] show ?case
  proof
    assume "batch = []"
    with r show ?thesis by (simp add: process_commands_empty_batch)
  next
    assume "\<exists>y. batch = [y] \<and> dget2_step x (render_segment seg) = Inr y"
    then obtain y where y: "batch = [y]" "dget2_step x (render_segment seg) = Inr y"
      by blast
    with r Cons.IH [OF oks, of y] show ?thesis by simp
  qed
qed

text \<open>
  C4, as the code has it. On a path of shared segments (a plain key, or a word key followed
  by a bracketed integer), with or without a leading slash: when the compiled path leads
  from the tree to a batch whose first element is the scalar \<open>v\<close>, both readers return \<open>v\<close>.
\<close>

theorem dget_dget2_agree:
  assumes "segs \<noteq> []" and "list_all shared_segment segs"
    and "p = render_path segs \<or> p = CHR ''/'' # render_path segs"
    and "read_path p = Inr commands"
    and "process_commands commands [t] = Inr (v # rest)"
    and "is_scalar v"
  shows "dget t p d = Inr v \<and> dget2 t p d = Inr v"
proof -
  note plain = shared_segments_plain [OF assms(2)]
  have cmds: "commands = concat (map segment_commands segs)"
    using read_path_render_path [OF assms(1) plain assms(3)] assms(4) by simp
  have "dget t p d = Inr v"
    using assms(4,5) segment_commands_no_flat [of segs]
    by (simp add: dget_def command_in_flat cmds)
  moreover have "dget2_loop t (map render_segment segs) = Inr v"
    using assms(2) assms(5) [unfolded cmds] by (rule dget2_loop_follows)
  then have "dget2 t p d = Inr v"
    using split_render_path [OF assms(1) plain assms(3)] by (simp add: dget2_def)
  ultimately show ?thesis ..
qed

theorem dget_dget2_agree_witness:
  "[(''users'', Some 0), (''name'', None)] \<noteq> []
   \<and> list_all shared_segment [(''users'', Some 0), (''name'', None)]
   \<and> ''users[0]/name'' = render_path [(''users'', Some 0), (''name'', None)]
   \<and> read_path ''users[0]/name''
       = Inr [ThroughDictKey ''users'', ThroughListIndexed 0, ThroughDictKey ''name'']
   \<and> process_commands [ThroughDictKey ''users'', ThroughListIndexed 0, ThroughDictKey ''name'']
       [PDict [(KStr ''users'', PList [PDict [(KStr ''name'', PStr ''Al'')],
                                       PDict [(KStr ''name'', PStr ''Bo'')]])]]
       = Inr [PStr ''Al'']
   \<and> is_scalar (PStr ''Al'')
   \<and> dget (PDict [(KStr ''users'', PList [PDict [(KStr ''name'', PStr ''Al'')],
                                          PDict [(KStr ''name'', PStr ''Bo'')]])])
        ''users[0]/name'' PNone = Inr (PStr ''Al'')
   \<and> dget2 (PDict [(KStr ''users'', PList [PDict [(KStr ''name'', PStr ''Al'')],
                                           PDict [(KStr ''name'', PStr ''Bo'')]])])
        ''users[0]/name'' PNone = Inr (PStr ''Al'')"
proof -
  let ?segs = "[(''users'', Some 0), (''name'', None)] :: segment list"
  let ?t = "PDict [(KStr ''users'', PList [PDict [(KStr ''name'', PStr ''Al'')],
                                          PDict [(KStr ''name'', PStr ''Bo'')]])]"
  let ?cs = "[ThroughDictKey ''users'', ThroughListIndexed 0, ThroughDictKey ''name'']"
  have h1: "?segs \<noteq> []" by simp
  have h2: "list_all shared_segment ?segs" by code_simp
  have h3: "''users[0]/name'' = render_path ?segs" by code_simp
  have h4: "read_path ''users[0]/name'' = Inr ?cs" by code_simp
  have h5: "process_commands ?cs [?t] = Inr (PStr ''Al'' # [])" by code_simp
  have h6: "is_scalar (PStr ''Al'')" by simp
  from dget_dget2_agree [OF h1 h2 disjI1 [OF h3] h4 h5 h6, of PNone] h1 h2 h3 h4 h5 h6
  show ?thesis by simp
qed

text \<open>
  A bracketed index that stands alone is a segment for \<open>dget\<close> only: \<open>dget2\<close> takes it for
  a dictionary key, fails on it and returns the default.
\<close>

theorem dget_dget2_agree_counterexample:
  "dget (PList [PInt 1, PInt 2, PInt 3]) ''[-1]'' PNone = Inr (PInt 3)
   \<and> dget2 (PList [PInt 1, PInt 2, PInt 3]) ''[-1]'' PNone = Inr PNone"
  by code_simp

section \<open>The paths that the walker yields\<close>

lemma locate_append:
  "locate v (pre @ post) = (case locate v pre of None \<Rightarrow> None | Some u \<Rightarrow> locate u post)"
proof (induction pre arbitrary: v)
  case Nil
  then show ?case by simp
next
  case (Cons seg pre)
  obtain key oi where seg: "seg = (key, oi)" by (cases seg)
  show ?case
    unfolding seg using Cons.IH
    by (auto split: pyvalue.splits option.splits sum.splits)
qed

lemma locate_key_last:
  assumes "locate root segs = Some (PDict kvs)"
    and "distinct (map fst kvs)" and "(KStr s, v) \<in> set kvs"
  shows "locate root (segs @ [(s, None)]) = Some v"
  using assms by (simp add: locate_append)

lemma locate_index_last:
  assumes "locate root (pre @ [(s, None)]) = Some (PList xs)" and "j < length xs"
  shows "locate root (pre @ [(s, Some (int j))]) = Some (xs ! j)"
proof -
  from assms(1) obtain u where u: "locate root pre = Some u"
    and l: "locate u [(s, None)] = Some (PList xs)"
    by (auto simp: locate_append split: option.splits)
  have "py_position (length xs) (int j) = Inr j"
    using assms(2) by (simp add: py_position_def)
  with l have "locate u [(s, Some (int j))] = Some (xs ! j)"
    by (auto split: pyvalue.splits option.splits)
  with u show ?thesis by (simp add: locate_append)
qed

lemma key_strings_walked_path:
  "key_strings (walked_path segs) = Inr (map render_segment segs)"
  by (induction segs) (simp_all add: walked_path_def)

lemma join_path_walked_path: "join_path (walked_path segs) = Inr (render_path segs)"
  by (simp add: join_path_def key_strings_walked_path render_path_def)

lemma annotate_last_walked_path:
  assumes "segs \<noteq> []" and "last segs = (s, None)"
  shows "annotate_last (walked_path segs) index
           = Inr (walked_path (butlast segs @ [(s, Some (int index))]))"
  using assms
  by (simp add: annotate_last_def walked_path_def last_map map_butlast show_int_nat)

lemma yields_located_Nil: "yields_located root P []"
  by (simp add: yields_located_def)

lemma yields_located_append:
  "yields_located root P (ys @ zs) \<longleftrightarrow> yields_located root P ys \<and> yields_located root P zs"
  by (auto simp: yields_located_def)

lemma yields_located_leaf:
  assumes "segs \<noteq> []" and "list_all (walked_segment P) segs"
    and "locate root segs = Some leaf" and "is_scalar leaf"
  shows "yields_located root P [(render_path segs, leaf)]"
  using assms by (auto simp: yields_located_def)

lemma dwalk_located:
  "\<And>segs. \<lbrakk>path = walked_path segs; addressable P v; locate root segs = Some v;
            list_all (walked_segment P) segs;
            isinstance_MutableSequence v \<longrightarrow> segs \<noteq> [] \<and> snd (last segs) = None \<and> P (fst (last segs));
            is_scalar v \<longrightarrow> segs \<noteq> []\<rbrakk>
     \<Longrightarrow> yields_located root P (fst (dwalk_with_path v path))"
  and "\<And>segs. \<lbrakk>path = walked_path segs; list_all (walked_segment P) segs;
            \<forall>kv \<in> set kvs. \<exists>s. fst kv = KStr s \<and> plain_key s
               \<and> (isinstance_MutableSequence (snd kv) \<longrightarrow> P s)
               \<and> addressable P (snd kv)
               \<and> locate root (segs @ [(s, None)]) = Some (snd kv)\<rbrakk>
     \<Longrightarrow> yields_located root P (fst (dwalk_items kvs path))"
  and "\<And>segs. \<lbrakk>path = walked_path segs; list_all (walked_segment P) segs;
            segs \<noteq> []; snd (last segs) = None; P (fst (last segs));
            \<forall>j < length vs. \<not> isinstance_MutableSequence (vs ! j) \<and> addressable P (vs ! j)
               \<and> locate root (butlast segs @ [(fst (last segs), Some (int (index + j)))])
                   = Some (vs ! j)\<rbrakk>
     \<Longrightarrow> yields_located root P (fst (dwalk_elems vs index path))"
proof (induction v path and kvs path and vs index path
    rule: dwalk_with_path_dwalk_items_dwalk_elems.induct)
  case (1 kvs path)
  have "\<forall>kv \<in> set kvs. \<exists>s. fst kv = KStr s \<and> plain_key s
           \<and> (isinstance_MutableSequence (snd kv) \<longrightarrow> P s)
           \<and> addressable P (snd kv)
           \<and> locate root (segs @ [(s, None)]) = Some (snd kv)"
  proof
    fix kv assume kv: "kv \<in> set kvs"
    with "1.prems"(2) obtain s where s: "fst kv = KStr s" "plain_key s"
      "isinstance_MutableSequence (snd kv) \<longrightarrow> P s" "addressable P (snd kv)"
      by (cases "fst kv") auto
    from "1.prems"(2) have d: "distinct (map fst kvs)" by simp
    from kv s(1) have "(KStr s, snd kv) \<in> set kvs"
      by (metis prod.collapse)
    with "1.prems"(3) d have "locate root (segs @ [(s, None)]) = Some (snd kv)"
      by (rule locate_key_last)
    with s show "\<exists>s. fst kv = KStr s \<and> plain_key s
           \<and> (isinstance_MutableSequence (snd kv) \<longrightarrow> P s)
           \<and> addressable P (snd kv)
           \<and> locate root (segs @ [(s, None)]) = Some (snd kv)"
      by blast
  qed
  with "1.IH" [OF "1.prems"(1) "1.prems"(4)] show ?case by simp
next
  case (2 xs path)
  from "2.prems"(5) have ne: "segs \<noteq> []" and ln: "snd (last segs) = None"
    and p: "P (fst (last segs))"
    by simp_all
  let ?s = "fst (last segs)"
  have segs: "segs = butlast segs @ [(?s, None)]"
    using ne ln by (metis append_butlast_last_id prod.collapse)
  have "\<forall>j < length xs. \<not> isinstance_MutableSequence (xs ! j) \<and> addressable P (xs ! j)
          \<and> locate root (butlast segs @ [(?s, Some (int (0 + j)))]) = Some (xs ! j)"
  proof (intro allI impI)
    fix j assume j: "j < length xs"
    then have "xs ! j \<in> set xs" by simp
    with "2.prems"(2) have a: "\<not> isinstance_MutableSequence (xs ! j)" "addressable P (xs ! j)"
      by auto
    have "locate root (butlast segs @ [(?s, None)]) = Some (PList xs)"
      using "2.prems"(3) segs by simp
    then have "locate root (butlast segs @ [(?s, Some (int j))]) = Some (xs ! j)"
      using j by (rule locate_index_last)
    with a show "\<not> isinstance_MutableSequence (xs ! j) \<and> addressable P (xs ! j)
          \<and> locate root (butlast segs @ [(?s, Some (int (0 + j)))]) = Some (xs ! j)"
      by simp
  qed
  with "2.IH" [OF "2.prems"(1) "2.prems"(4) ne ln p] show ?case by simp
next
  case (3 path)
  then show ?case
    by (simp add: join_path_walked_path yields_located_leaf)
next
  case (4 b path)
  then show ?case
    by (simp add: join_path_walked_path yields_located_leaf)
next
  case (5 i path)
  then show ?case
    by (simp add: join_path_walked_path yields_located_leaf)
next
  case (6 t path)
  then show ?case
    by (simp add: join_path_walked_path yields_located_leaf)
next
  case (7 path)
  then show ?case by (simp add: yields_located_Nil)
next
  case (8 key v kvs path)
  from "8.prems"(3) obtain s where s: "key = KStr s" "plain_key s"
    "isinstance_MutableSequence v \<longrightarrow> P s" "addressable P v"
    "locate root (segs @ [(s, None)]) = Some v"
    by auto
  have path: "path @ [key] = walked_path (segs @ [(s, None)])"
    using "8.prems"(1) s(1) by (simp add: walked_path_def)
  have oks: "list_all (walked_segment P) (segs @ [(s, None)])"
    using "8.prems"(2) s(2) by simp
  have first: "yields_located root P (fst (dwalk_with_path v (path @ [key])))"
    using "8.IH"(1) [OF path s(4) s(5) oks] s(3) by simp
  have rest: "\<forall>kv \<in> set kvs. \<exists>s. fst kv = KStr s \<and> plain_key s
               \<and> (isinstance_MutableSequence (snd kv) \<longrightarrow> P s)
               \<and> addressable P (snd kv)
               \<and> locate root (segs @ [(s, None)]) = Some (snd kv)"
    using "8.prems"(3) by simp
  obtain ys r where w: "dwalk_with_path v (path @ [key]) = (ys, r)"
    by (cases "dwalk_with_path v (path @ [key])")
  show ?case
  proof (cases r)
    case None
    have "yields_located root P (fst (dwalk_items kvs path))"
      using "8.IH"(2) [OF w [symmetric] None "8.prems"(1,2) rest] .
    with first w None show ?thesis
      by (auto simp: yields_located_append split: prod.splits)
  next
    case (Some e)
    with first w show ?thesis by simp
  qed
next
  case (9 index path)
  then show ?case by (simp add: yields_located_Nil)
next
  case (10 v vs index path)
  let ?s = "fst (last segs)"
  let ?segs1 = "butlast segs @ [(?s, Some (int index))]"
  have lst: "last segs = (?s, None)"
    using "10.prems"(4) by (metis prod.collapse)
  have ann: "annotate_last path index = Inr (walked_path ?segs1)"
    using "10.prems"(1) annotate_last_walked_path [OF "10.prems"(3) lst] by simp
  from "10.prems"(6) have v: "\<not> isinstance_MutableSequence v" "addressable P v"
    "locate root ?segs1 = Some v"
    by auto
  have pk: "plain_key ?s"
    using "10.prems"(2,3) lst
    by (metis last_in_set list_all_iff walked_segment.simps(1))
  have oks: "list_all (walked_segment P) ?segs1"
    using "10.prems"(2,5) pk by (auto simp: list_all_iff dest: in_set_butlastD)
  have first: "yields_located root P (fst (dwalk_with_path v (walked_path ?segs1)))"
    using "10.IH"(1) [OF ann refl v(2) v(3) oks] v(1) by simp
  have rest: "\<forall>j < length vs. \<not> isinstance_MutableSequence (vs ! j) \<and> addressable P (vs ! j)
               \<and> locate root (butlast segs @ [(?s, Some (int (Suc index + j)))]) = Some (vs ! j)"
  proof (intro allI impI)
    fix j assume "j < length vs"
    then have "Suc j < length (v # vs)" by simp
    with "10.prems"(6) show "\<not> isinstance_MutableSequence (vs ! j) \<and> addressable P (vs ! j)
               \<and> locate root (butlast segs @ [(?s, Some (int (Suc index + j)))]) = Some (vs ! j)"
      by (metis add_Suc_shift nth_Cons_Suc)
  qed
  obtain ys r where w: "dwalk_with_path v (walked_path ?segs1) = (ys, r)"
    by (cases "dwalk_with_path v (walked_path ?segs1)")
  show ?case
  proof (cases r)
    case None
    have "yields_located root P (fst (dwalk_elems vs (Suc index) path))"
      using "10.IH"(2) [OF ann w [symmetric] None "10.prems"(1,2,3,4,5) rest] .
    with first w None ann show ?thesis
      by (auto simp: yields_located_append split: prod.splits)
  next
    case (Some e)
    with first w ann show ?thesis by simp
  qed
qed

section \<open>Reading and writing at a located node\<close>

lemma walked_segments_plain:
  "list_all (walked_segment P) segs \<Longrightarrow> list_all (\<lambda>seg. plain_key (fst seg)) segs"
proof -
  have "walked_segment P seg \<Longrightarrow> plain_key (fst seg)" for seg
    by (cases "(P, seg)" rule: walked_segment.cases) simp_all
  then show "list_all (walked_segment P) segs \<Longrightarrow> list_all (\<lambda>seg. plain_key (fst seg)) segs"
    by (auto simp: list_all_iff)
qed

lemma locate_process_commands:
  "locate t segs = Some leaf \<Longrightarrow> process_commands (concat (map segment_commands segs)) [t] = Inr [leaf]"
proof (induction segs arbitrary: t)
  case Nil
  then show ?case by simp
next
  case (Cons seg segs)
  obtain key oi where seg: "seg = (key, oi)" by (cases seg)
  from Cons.prems seg obtain kvs c where t: "t = PDict kvs" and c: "map_of kvs (KStr key) = Some c"
    by (cases t) (auto split: option.splits)
  show ?case
  proof (cases oi)
    case None
    with Cons.prems seg t c have "locate c segs = Some leaf" by simp
    from Cons.IH [OF this] None seg t c show ?thesis by simp
  next
    case (Some i)
    with Cons.prems seg t c obtain xs pos where xs: "c = PList xs"
      and pos: "py_position (length xs) i = Inr pos"
      and l: "locate (xs ! pos) segs = Some leaf"
      by (cases c) (auto split: sum.splits)
    have "i < int (length xs)"
      using pos by (auto simp: py_position_def Let_def split: if_splits)
    with Cons.IH [OF l] Some seg t c xs pos show ?thesis
      by (simp add: py_index_def)
  qed
qed

text \<open>The walker on a tree that is not a scalar: every pair names a scalar of the tree.\<close>

lemma dwalk_yields_located:
  assumes "addressable P t" and "\<not> is_scalar t"
  shows "yields_located t P (fst (dwalk t))"
proof (cases t)
  case (PList xs)
  then have "fst (dwalk t) = []"
    by (cases xs) (simp_all add: dwalk_def annotate_last_def)
  then show ?thesis by (simp add: yields_located_Nil)
next
  case (PDict kvs)
  have "yields_located t P (fst (dwalk_with_path t (walked_path [])))"
    using assms(1) PDict by (intro dwalk_located(1) [where segs = "[]"]) simp_all
  then show ?thesis by (simp add: dwalk_def walked_path_def)
qed (use assms(2) in simp_all)

text \<open>
  C3, as the code has it. On a tree that is walkable (string keys that are plain keys, no
  list directly inside a list) and not a bare scalar, \<open>dget\<close> resolves every path that the
  walker yields to the leaf yielded with it.
\<close>

theorem dwalk_dget:
  assumes "walkable t" and "\<not> is_scalar t"
    and "(p, leaf) \<in> set (fst (dwalk t))"
  shows "dget t p d = Inr leaf"
proof -
  from assms(1,2) have "yields_located t (\<lambda>k. True) (fst (dwalk t))"
    unfolding walkable_def by (rule dwalk_yields_located)
  with assms(3) obtain segs where segs: "segs \<noteq> []" "list_all (walked_segment (\<lambda>k. True)) segs"
    "p = render_path segs" "locate t segs = Some leaf"
    by (fastforce simp: yields_located_def)
  have "read_path p = Inr (concat (map segment_commands segs))"
    using segs(1) walked_segments_plain [OF segs(2)] segs(3)
    by (intro read_path_render_path) simp_all
  moreover have "process_commands (concat (map segment_commands segs)) [t] = Inr [leaf]"
    using segs(4) by (rule locate_process_commands)
  ultimately show ?thesis
    using segment_commands_no_flat [of segs] by (simp add: dget_def command_in_flat)
qed

theorem dwalk_dget_witness:
  "walkable (PDict [(KStr ''users'', PList [PDict [(KStr ''name'', PStr ''Al'')],
                                            PDict [(KStr ''name'', PStr ''Bo'')]])])
   \<and> \<not> is_scalar (PDict [(KStr ''users'', PList [PDict [(KStr ''name'', PStr ''Al'')],
                                                  PDict [(KStr ''name'', PStr ''Bo'')]])])
   \<and> (''users[1]/name'', PStr ''Bo'')
       \<in> set (fst (dwalk (PDict [(KStr ''users'', PList [PDict [(KStr ''name'', PStr ''Al'')],
                                                         PDict [(KStr ''name'', PStr ''Bo'')]])])))
   \<and> dget (PDict [(KStr ''users'', PList [PDict [(KStr ''name'', PStr ''Al'')],
                                          PDict [(KStr ''name'', PStr ''Bo'')]])])
        ''users[1]/name'' PNone = Inr (PStr ''Bo'')"
proof -
  let ?t = "PDict [(KStr ''users'', PList [PDict [(KStr ''name'', PStr ''Al'')],
                                          PDict [(KStr ''name'', PStr ''Bo'')]])]"
  have h1: "walkable ?t" by code_simp
  have h2: "\<not> is_scalar ?t" by simp
  have h3: "(''users[1]/name'', PStr ''Bo'') \<in> set (fst (dwalk ?t))" by code_simp
  from dwalk_dget [OF h1 h2 h3, of PNone] h1 h2 h3 show ?thesis by simp
qed

text \<open>
  Three trees outside the theorem. A list directly inside a list gives a path with two
  brackets, of which \<open>dget\<close> reads the first only; the key \<^verbatim>\<open>*\<close> is read as the wildcard;
  a bare scalar is yielded with the empty path, on which \<open>dget\<close> raises.
\<close>

theorem dwalk_dget_counterexample:
  "dwalk (PDict [(KStr ''a'', PList [PList [PInt 1, PInt 2]])])
     = ([(''a[0][0]'', PInt 1), (''a[0][1]'', PInt 2)], None)
   \<and> dget (PDict [(KStr ''a'', PList [PList [PInt 1, PInt 2]])]) ''a[0][1]'' PNone
       = Inr (PList [PInt 1, PInt 2])
   \<and> dwalk (PDict [(KStr ''*'', PInt 1)]) = ([(''*'', PInt 1)], None)
   \<and> dget (PDict [(KStr ''*'', PInt 1)]) ''*'' PNone = Inr (PList [PInt 1])
   \<and> dwalk (PInt 1) = ([('''', PInt 1)], None)
   \<and> dget (PInt 1) '''' PNone = Inl IndexError"
  by code_simp

lemma walked_segment_shared: "walked_segment word_key seg \<Longrightarrow> shared_segment seg"
  by (cases "(word_key, seg)" rule: walked_segment.cases) simp_all

lemma dset_step_located:
  assumes "shared_segment seg" and "locate t [seg] = Some c"
  shows "\<exists>put_back. dset_step t (render_segment seg) = Inr (c, put_back)
           \<and> (\<forall>w. locate (put_back w) [seg] = Some w)"
proof -
  obtain key oi where seg: "seg = (key, oi)" by (cases seg)
  from assms(2) seg obtain kvs x where t: "t = PDict kvs" and x: "map_of kvs (KStr key) = Some x"
    by (cases t) (auto split: option.splits)
  show ?thesis
  proof (cases oi)
    case None
    with assms seg t x show ?thesis
      by (simp add: dset_step_def get_repetition_index_plain map_of_dict_set_same)
  next
    case (Some i)
    with assms(2) seg t x obtain xs pos where xs: "x = PList xs"
      and pos: "py_position (length xs) i = Inr pos" and c: "c = xs ! pos"
      by (cases x) (auto split: sum.splits)
    from assms(1) seg Some have wk: "word_key key" by simp
    have ne: "int (length xs) \<noteq> i"
      using pos py_position_length [of "length xs"] by auto
    have lt: "pos < length xs"
      using pos by (rule py_position_bound)
    show ?thesis
      using seg Some t x xs pos c ne lt
      by (simp add: dset_step_def get_repetition_index_word [OF wk] map_of_dict_set_same)
  qed
qed

lemma dset_last_located:
  assumes "shared_segment seg" and "locate t [seg] = Some leaf"
  shows "\<exists>t'. dset_last t (render_segment seg) v = Inr t' \<and> locate t' [seg] = Some v"
proof -
  obtain key oi where seg: "seg = (key, oi)" by (cases seg)
  from assms(2) seg obtain kvs x where t: "t = PDict kvs" and x: "map_of kvs (KStr key) = Some x"
    by (cases t) (auto split: option.splits)
  show ?thesis
  proof (cases oi)
    case None
    with assms seg t x show ?thesis
      by (simp add: dset_last_def get_repetition_index_plain map_of_dict_set_same)
  next
    case (Some i)
    with assms(2) seg t x obtain xs pos where xs: "x = PList xs"
      and pos: "py_position (length xs) i = Inr pos"
      by (cases x) (auto split: sum.splits)
    from assms(1) seg Some have wk: "word_key key" by simp
    have ne: "int (length xs) \<noteq> i"
      using pos py_position_length [of "length xs"] by auto
    have lt: "pos < length xs"
      using pos by (rule py_position_bound)
    show ?thesis
      using seg Some t x xs pos ne lt
      by (simp add: dset_last_def get_repetition_index_word [OF wk] py_setitem_def
          map_of_dict_set_same)
  qed
qed

lemma dset_loop_located:
  assumes "locate t segs = Some leaf" and "segs \<noteq> []"
    and "list_all shared_segment segs"
  shows "\<exists>t'. dset_loop t (map render_segment (butlast segs)) (render_segment (last segs)) v = Inr t'
           \<and> locate t' segs = Some v"
  using assms
proof (induction segs arbitrary: t)
  case Nil
  then show ?case by simp
next
  case (Cons seg segs)
  show ?case
  proof (cases "segs = []")
    case True
    with Cons.prems show ?thesis
      using dset_last_located [of seg t leaf v] by simp
  next
    case False
    from Cons.prems(1) obtain c where c: "locate t [seg] = Some c" and l: "locate c segs = Some leaf"
      using locate_append [of t "[seg]" segs] by (auto split: option.splits)
    from Cons.prems(3) have ok: "shared_segment seg"
      and oks: "list_all shared_segment segs"
      by simp_all
    from dset_step_located [OF ok c] obtain put_back
      where step: "dset_step t (render_segment seg) = Inr (c, put_back)"
        and put: "\<And>w. locate (put_back w) [seg] = Some w"
      by blast
    from Cons.IH [OF l False oks] obtain c'
      where sub: "dset_loop c (map render_segment (butlast segs)) (render_segment (last segs)) v = Inr c'"
        and lc: "locate c' segs = Some v"
      by blast
    have "locate (put_back c') (seg # segs) = Some v"
      using locate_append [of "put_back c'" "[seg]" segs] put [of c'] lc by simp
    with step sub False show ?thesis by simp
  qed
qed

text \<open>Writing at a node that segments name, then reading the same path.\<close>

lemma dset_dget_located:
  assumes "segs \<noteq> []" and "list_all shared_segment segs"
    and "p = render_path segs \<or> p = CHR ''/'' # render_path segs"
    and "locate t segs = Some leaf"
  shows "\<exists>t'. dset t p v = Inr t' \<and> dget t' p d = Inr v"
proof -
  note plain = shared_segments_plain [OF assms(2)]
  from dset_loop_located [OF assms(4) assms(1) assms(2)] obtain t'
    where w: "dset_loop t (map render_segment (butlast segs)) (render_segment (last segs)) v = Inr t'"
      and l: "locate t' segs = Some v"
    by blast
  have "split_on CHR ''/'' (strip_slash p) = map render_segment segs"
    using assms(1) plain assms(3) by (rule split_render_path)
  then have "dset t p v = Inr t'"
    using w assms(1) by (simp add: dset_def map_butlast last_map)
  moreover have "read_path p = Inr (concat (map segment_commands segs))"
    using assms(1) plain assms(3) by (rule read_path_render_path)
  moreover have "process_commands (concat (map segment_commands segs)) [t'] = Inr [v]"
    using l by (rule locate_process_commands)
  ultimately show ?thesis
    using segment_commands_no_flat [of segs] by (simp add: dget_def command_in_flat)
qed

text \<open>
  The paths that the walker yields on a writable tree are among these: each names a
  scalar of the tree by shared segments.
\<close>

lemma dwalk_paths_round_trip:
  assumes "writable t" and "\<not> is_scalar t"
    and "(p, leaf) \<in> set (fst (dwalk t))"
  shows "\<exists>t'. dset t p v = Inr t' \<and> dget t' p d = Inr v"
proof -
  from assms(1,2) have "yields_located t word_key (fst (dwalk t))"
    unfolding writable_def by (rule dwalk_yields_located)
  with assms(3) obtain segs where segs: "segs \<noteq> []" "list_all (walked_segment word_key) segs"
    "p = render_path segs" "locate t segs = Some leaf"
    by (fastforce simp: yields_located_def)
  have "list_all shared_segment segs"
    using segs(2) by (auto simp: list_all_iff walked_segment_shared)
  with segs(1) show ?thesis
    using segs(3,4) by (intro dset_dget_located [where segs = segs and leaf = leaf]) simp_all
qed

text \<open>
  C5, as the code has it. On a path of shared segments (a plain key, or a word key followed
  by a bracketed integer, negative or not), with or without a leading slash: when the
  segments name a scalar of the tree, that is when the path resolves to a leaf of the tree
  through dictionaries and lists, \<open>dset\<close> succeeds for every value \<open>v\<close> and \<open>dget\<close> then
  returns \<open>v\<close> on the changed tree.
\<close>

theorem dset_dget_roundtrip:
  assumes "segs \<noteq> []" and "list_all shared_segment segs"
    and "p = render_path segs \<or> p = CHR ''/'' # render_path segs"
    and "locate t segs = Some leaf" and "is_scalar leaf"
  shows "\<exists>t'. dset t p v = Inr t' \<and> dget t' p d = Inr v"
  using assms(1-4) by (rule dset_dget_located)

text \<open>A leading slash and an index counted from the end.\<close>

theorem dset_dget_roundtrip_witness:
  "[(''users'', Some (- 1)), (''name'', None)] \<noteq> []
   \<and> list_all shared_segment [(''users'', Some (- 1)), (''name'', None)]
   \<and> ''/users[-1]/name'' = CHR ''/'' # render_path [(''users'', Some (- 1)), (''name'', None)]
   \<and> locate (PDict [(KStr ''users'', PList [PDict [(KStr ''name'', PStr ''Al'')],
                                             PDict [(KStr ''name'', PStr ''Bo'')]])])
        [(''users'', Some (- 1)), (''name'', None)] = Some (PStr ''Bo'')
   \<and> is_scalar (PStr ''Bo'')
   \<and> (\<exists>t'. dset (PDict [(KStr ''users'', PList [PDict [(KStr ''name'', PStr ''Al'')],
                                                PDict [(KStr ''name'', PStr ''Bo'')]])])
              ''/users[-1]/name'' (PStr ''Cy'') = Inr t'
           \<and> dget t' ''/users[-1]/name'' PNone = Inr (PStr ''Cy''))"
proof -
  let ?segs = "[(''users'', Some (- 1)), (''name'', None)] :: segment list"
  let ?t = "PDict [(KStr ''users'', PList [PDict [(KStr ''name'', PStr ''Al'')],
                                          PDict [(KStr ''name'', PStr ''Bo'')]])]"
  have h1: "?segs \<noteq> []" by simp
  have h2: "list_all shared_segment ?segs" by code_simp
  have h3: "''/users[-1]/name'' = CHR ''/'' # render_path ?segs" by code_simp
  have h4: "locate ?t ?segs = Some (PStr ''Bo'')" by code_simp
  have h5: "is_scalar (PStr ''Bo'')" by simp
  from dset_dget_roundtrip [OF h1 h2 disjI2 [OF h3] h4 h5, of "PStr ''Cy''" PNone] h1 h2 h3 h4 h5
  show ?thesis by simp
qed

text \<open>
  Above a list, a key with a character outside the words: the writer takes the end of the
  key for the key, writes under it, and \<open>dget\<close> still returns the old leaf.
\<close>

theorem dset_dget_roundtrip_counterexample:
  "dwalk (PDict [(KStr ''x-y'', PList [PInt 1])]) = ([(''x-y[0]'', PInt 1)], None)
   \<and> dset (PDict [(KStr ''x-y'', PList [PInt 1])]) ''x-y[0]'' (PInt 2)
       = Inr (PDict [(KStr ''x-y'', PList [PInt 1]), (KStr ''y'', PList [PInt 2])])
   \<and> dget (PDict [(KStr ''x-y'', PList [PInt 1]), (KStr ''y'', PList [PInt 2])]) ''x-y[0]'' PNone
       = Inr (PInt 1)"
  by code_simp

end
